theory Spec2Isabelle
  imports Main "HOL-Library.Multiset"
begin

section \<open>Packed words: the data model\<close>

text \<open>
  A word is a Python list of integers, modelled as \<open>int list\<close>.  A \<open>PackedWord\<close>
  instance is such a list together with the cached attributes \<open>_max\<close> and \<open>_size\<close>,
  both functions of the list.  Every \<open>raise\<close> of the source, and every exception of
  a Python builtin the source relies on, is a value of \<open>error\<close>.
\<close>

datatype error =
    NotPositiveIntegers "int list"
  | MissingLetter
  | EmptyInsertionList
  | PositionsNotOrdered "int list"
  | PositionsDoNotMatch "int list" "int list"
  | EmptyWord
  | MaxOfEmpty
  | IndexError
  | NotInList
  | KeyError
  | InvalidOption
  | NotAMember "int list"
  | OverflowError

text \<open>
  The text of a \<open>ValueError\<close> raised by the source: \<open>Some s\<close> is the sequence the
  message is formatted with, \<open>None\<close> a message that names no sequence.  The message of
  \<open>MissingLetter\<close> is a fixed string: its \<open>format(self)\<close> has no placeholder.
\<close>

fun reported_sequence :: "error \<Rightarrow> int list option" where
  "reported_sequence (NotPositiveIntegers s) = Some s"
| "reported_sequence (PositionsNotOrdered l) = Some l"
| "reported_sequence (PositionsDoNotMatch l w) = Some l"
| "reported_sequence (NotAMember w) = Some w"
| "reported_sequence e = None"

fun is_position_mismatch :: "error \<Rightarrow> bool" where
  "is_position_mismatch (PositionsNotOrdered l) = True"
| "is_position_mismatch (PositionsDoNotMatch l w) = True"
| "is_position_mismatch e = False"

definition ebind :: "error + 'a \<Rightarrow> ('a \<Rightarrow> error + 'b) \<Rightarrow> error + 'b" where
  "ebind x f = (case x of Inl e \<Rightarrow> Inl e | Inr v \<Rightarrow> f v)"

text \<open>A list comprehension whose body can raise stops at the first exception.\<close>

fun sequence_err :: "(error + 'a) list \<Rightarrow> error + 'a list" where
  "sequence_err [] = Inr []"
| "sequence_err (x # xs) =
     (case x of Inl e \<Rightarrow> Inl e
      | Inr v \<Rightarrow> (case sequence_err xs of Inl e \<Rightarrow> Inl e | Inr vs \<Rightarrow> Inr (v # vs)))"

subsection \<open>Python list primitives\<close>

text \<open>\<open>xs.index(v)\<close>: the first index of \<open>v\<close>; callers guard the \<open>ValueError\<close>.\<close>

definition index_of :: "'a list \<Rightarrow> 'a \<Rightarrow> nat" where
  "index_of xs v = length (takeWhile (\<lambda>x. x \<noteq> v) xs)"

text \<open>The slices \<open>xs[:p]\<close> and \<open>xs[p:]\<close> for an arbitrary integer \<open>p\<close>.\<close>

definition py_take :: "int \<Rightarrow> 'a list \<Rightarrow> 'a list" where
  "py_take p xs = (if 0 \<le> p then take (nat p) xs else take (length xs - nat (- p)) xs)"

definition py_drop :: "int \<Rightarrow> 'a list \<Rightarrow> 'a list" where
  "py_drop p xs = (if 0 \<le> p then drop (nat p) xs else drop (length xs - nat (- p)) xs)"

text \<open>\<open>self._max\<close>: \<open>0 if not lst else max(lst)\<close>.\<close>

definition pw_max :: "int list \<Rightarrow> int" where
  "pw_max w = (if w = [] then 0 else Max (set w))"

subsection \<open>Validation\<close>

text \<open>
  \<open>PackedWord.check\<close>.  The entries are integers by their type, so \<open>a in ZZ\<close>
  holds; \<open>max([0]+s[-1:])\<close> is \<open>0\<close> for the empty list and \<open>max 0 (last s)\<close> otherwise.
\<close>

definition check :: "int list \<Rightarrow> error + unit" where
  "check w =
     (if list_all (\<lambda>a. 0 < a) w then
        (let s = sorted_list_of_set (set w) in
         if s \<noteq> [1 .. (if s = [] then 0 else max 0 (last s))] then Inl MissingLetter
         else Inr ())
      else Inl (NotPositiveIntegers w))"

text \<open>
  The validation step of the constructor \<open>PackedWord(lst)\<close> with its default
  \<open>check=True\<close>, on letters that are already stored: the methods of the class call the
  constructor on the letters of their own words and on ranks and positions, which fit a
  C \<open>int\<close>.
\<close>

definition PackedWord :: "int list \<Rightarrow> error + int list" where
  "PackedWord lst = (case check lst of Inl e \<Rightarrow> Inl e | Inr u \<Rightarrow> Inr lst)"

text \<open>
  The constructor on an arbitrary sequence of Python integers.  \<open>PackedWord\<close> extends
  \<open>ClonableIntArray\<close>, and \<open>__init__\<close> calls \<open>ClonableIntArray.__init__(self, parent,
  lst, check=check)\<close>: the entries are first converted to C \<open>int\<close>, which raises
  \<open>OverflowError\<close> for an entry outside \<open>-2^31 .. 2^31 - 1\<close>, and only then is
  \<open>check\<close> called (when \<open>check\<close> is true).
\<close>

definition fits_c_int :: "int \<Rightarrow> bool" where
  "fits_c_int a = (- (2 ^ 31) \<le> a \<and> a < 2 ^ 31)"

definition PackedWord_init :: "int list \<Rightarrow> bool \<Rightarrow> error + int list" where
  "PackedWord_init lst chk =
     (if \<not> list_all fits_c_int lst then Inl OverflowError
      else if chk then PackedWord lst
      else Inr lst)"

definition is_packed :: "int list \<Rightarrow> bool" where
  "is_packed w = (check w = Inr ())"

subsection \<open>Packing\<close>

text \<open>
  \<open>PackedWordsBaseClass.pack\<close>: every entry of \<open>li\<close> is in \<open>sorted(set(li))\<close>, so the
  \<open>index\<close> never raises, and the result always passes \<open>check\<close> (lemma
  \<open>check_pack\<close> below), so the constructor call is the identity.
\<close>

definition pack :: "int list \<Rightarrow> int list" where
  "pack li = (let l = sorted_list_of_set (set li) in map (\<lambda>i. int (index_of l i) + 1) li)"

subsection \<open>Global descents and ascents\<close>

text \<open>
  \<open>global_descents\<close> with \<open>from_zero=False\<close>; the loop keeps the running minimum
  \<open>local_left_min\<close> and the list found so far.
\<close>

definition gd_step :: "int list \<Rightarrow> int \<times> nat list \<Rightarrow> nat \<Rightarrow> int \<times> nat list" where
  "gd_step w st i =
     (let llm = min (fst st) (w ! i) in
      (llm, if llm > Max (set (drop (i + 1) w @ [0])) then snd st @ [i + 1] else snd st))"

definition global_descents :: "int list \<Rightarrow> bool \<Rightarrow> nat list" where
  "global_descents w final_descent =
     (let g = snd (foldl (gd_step w) (pw_max w, []) [0 ..< length w - 1])
      in if final_descent then g @ [length w] else g)"

text \<open>\<open>from_zero=True\<close> shifts every position by one (the empty word gives \<open>[-1]\<close>).\<close>

definition global_descents_from_zero :: "int list \<Rightarrow> bool \<Rightarrow> int list" where
  "global_descents_from_zero w final_descent =
     map (\<lambda>i. int i - 1) (global_descents w final_descent)"

definition ga_step :: "int list \<Rightarrow> int \<times> nat list \<Rightarrow> nat \<Rightarrow> int \<times> nat list" where
  "ga_step w st i =
     (let llm = max (fst st) (w ! (i - 1)) in
      (llm, if llm < Min (set (drop i w @ [pw_max w])) then snd st @ [i + 1] else snd st))"

definition global_ascents :: "int list \<Rightarrow> bool \<Rightarrow> nat list" where
  "global_ascents w initial_ascent =
     (if w = [] then []
      else (let g = snd (foldl (ga_step w) (0, []) [1 ..< length w])
            in if initial_ascent then 1 # g else g))"

text \<open>
  \<open>global_descents_factorization\<close>: the slices \<open>self[:i]\<close>, \<open>self[i:j]\<close> between
  consecutive descents, each packed.
\<close>

fun gdf_loop :: "int list \<Rightarrow> nat \<Rightarrow> nat list \<Rightarrow> int list list" where
  "gdf_loop w i [] = []"
| "gdf_loop w i (j # js) = pack (drop i (take j w)) # gdf_loop w j js"

definition global_descents_factorization :: "int list \<Rightarrow> int list list" where
  "global_descents_factorization w =
     (let g = global_descents w True in
      if g = [] then [w] else pack (take (hd g) w) # gdf_loop w (hd g) (tl g))"

subsection \<open>The particularity predicate\<close>

text \<open>
  \<open>is_particular\<close>; the result \<open>None\<close> is Python's \<open>None\<close>, returned when \<open>side\<close> is
  neither of the two strings.  \<open>g_desc_fact[0]\<close> exists: the final descent is in the list.
\<close>

definition is_particular :: "int list \<Rightarrow> string \<Rightarrow> error + bool option" where
  "is_particular p side =
     (if p = [] then Inl EmptyWord
      else if length p = 1 then Inr (Some True)
      else if global_descents p False \<noteq> [] then Inr (Some False)
      else if side = ''right'' then
        (let m = Max (set p) in
         case PackedWord (filter (\<lambda>x. x < m) p) of
           Inl e \<Rightarrow> Inl e
         | Inr p_m \<Rightarrow>
             if p_m = [] then Inr (Some True)
             else Inr (Some (index_of p m < hd (global_descents p_m True))))
      else if side = ''left'' then
        (let p_m = pack (butlast p) in
         if p_m = [] then Inr (Some True)
         else Inr (Some (global_descents p_m False = []
                         \<and> \<not> (length p \<in> set (global_ascents p False)))))
      else Inr None)"

subsection \<open>Value insertion\<close>

definition insert_at :: "int \<Rightarrow> int list \<Rightarrow> int \<Rightarrow> int list" where
  "insert_at m res pos = py_take pos res @ [m] @ py_drop pos res"

definition upgrade_max :: "int list \<Rightarrow> int list \<Rightarrow> error + int list" where
  "upgrade_max w l =
     (if l = [] then Inl EmptyInsertionList
      else if w = [] then PackedWord (foldl (insert_at 1) w l)
      else if sort l \<noteq> l then Inl (PositionsNotOrdered l)
      else if last l > int (length w) + int (length l) - 1 then Inl (PositionsDoNotMatch l w)
      else PackedWord (foldl (insert_at (Max (set w) + 1)) w l))"

text \<open>\<open>upgrade_last\<close>: \<open>bb = 1 - b\<close> is \<open>1\<close> when the flag is false.\<close>

definition upgrade_last :: "int list \<Rightarrow> int \<times> bool \<Rightarrow> error + int list" where
  "upgrade_last w t =
     (let val = fst t; bb = (if snd t then 0 else 1) in
      PackedWord (map (\<lambda>x. if x < val then x else x + bb) w @ [val]))"

section \<open>Tree codecs\<close>

subsection \<open>Facts the recursion of the encoders rests on\<close>

lemma PackedWord_Inr: "PackedWord x = Inr y \<Longrightarrow> y = x"
  by (auto simp: PackedWord_def split: sum.splits)

lemma length_pack [simp]: "length (pack li) = length li"
  by (simp add: pack_def Let_def)

lemma length_gdf_loop: "f \<in> set (gdf_loop w i js) \<Longrightarrow> length f \<le> length w"
  by (induction js arbitrary: i) auto

lemma length_gdf: "f \<in> set (global_descents_factorization w) \<Longrightarrow> length f \<le> length w"
  by (auto simp: global_descents_factorization_def Let_def dest: length_gdf_loop split: if_splits)

lemma filter_max_less: "w \<noteq> [] \<Longrightarrow> length (filter (\<lambda>x. x < Max (set w)) w) < length (w :: int list)"
  by (rule length_filter_less[of "Max (set w)"]) auto

subsection \<open>The plain encoder\<close>

text \<open>
  \<open>LabelledOrderedTree(children, label)\<close>.  The label of the plain codec is
  \<open>(cut, positions)\<close>, that of the left codec \<open>(cut, (value, seen))\<close>; \<open>cut\<close> counts
  children and is never negative.

  \<open>find_cut\<close> is the \<open>while\<close> loop of \<open>packed_word_to_labelled_tree\<close>: it returns
  \<open>cut\<close> and \<open>s\<close> as the loop leaves them; \<open>g_desc_fact[cut]\<close> out of range is the
  \<open>IndexError\<close>.  \<open>pos_max[0]\<close> exists since the maximum is a letter of the word, and
  \<open>g_desc_fact[0]\<close> exists since a factorization is never empty.
\<close>

datatype 'a ltree = LabelledOrderedTree (children: "'a ltree list") (label: 'a)

function find_cut :: "int list list \<Rightarrow> nat \<Rightarrow> nat \<Rightarrow> nat \<Rightarrow> nat \<Rightarrow> error + nat \<times> nat" where
  "find_cut g p0 len_m ct s =
     (if s \<le> p0 \<and> s < len_m then
        (if ct + 1 < length g then find_cut g p0 len_m (ct + 1) (s + length (g ! (ct + 1)))
         else Inl IndexError)
      else Inr (ct, s))"
  by pat_completeness auto
termination
  by (relation "measure (\<lambda>(g, p0, len_m, ct, s). length g - ct)") auto

function packed_word_to_labelled_tree :: "int list \<Rightarrow> error + (nat \<times> int list) ltree"
  and packed_word_to_labelled_forest :: "int list \<Rightarrow> error + (nat \<times> int list) ltree list"
where
  "packed_word_to_labelled_tree w =
     (if w = [] then Inl MaxOfEmpty
      else
        (let m = Max (set w); n = length w in
         if m = 1 then Inr (LabelledOrderedTree [] (0, [1 .. int n]))
         else
           (let pos_max = filter (\<lambda>i. w ! i = m) [0 ..< n];
                self_m = filter (\<lambda>x. x < m) w
            in
            if hd pos_max \<ge> length self_m then
              (case PackedWord self_m of
                 Inl e \<Rightarrow> Inl e
               | Inr pm \<Rightarrow>
                   (case packed_word_to_labelled_forest pm of
                      Inl e \<Rightarrow> Inl e
                    | Inr chn \<Rightarrow>
                        Inr (LabelledOrderedTree chn (length chn, [1 .. int (length pos_max)]))))
            else
              (case PackedWord self_m of
                 Inl e \<Rightarrow> Inl e
               | Inr pm \<Rightarrow>
                   (let g_desc_fact = global_descents_factorization pm in
                    case find_cut g_desc_fact (hd pos_max) (length self_m) 0
                           (length (hd g_desc_fact)) of
                      Inl e \<Rightarrow> Inl e
                    | Inr (ct, s1) \<Rightarrow>
                        (let s = int s1 - int (length (g_desc_fact ! ct));
                             lbl = map (\<lambda>x. int x - s + 1) pos_max
                         in
                         case sequence_err (map packed_word_to_labelled_tree g_desc_fact) of
                           Inl e \<Rightarrow> Inl e
                         | Inr chn \<Rightarrow> Inr (LabelledOrderedTree chn (ct, lbl))))))))"
| "packed_word_to_labelled_forest w =
     (if w = [] then Inr []
      else sequence_err (map packed_word_to_labelled_tree (global_descents_factorization w)))"
  by pat_completeness auto
termination
proof (relation "measure (\<lambda>x. case x of Inl w \<Rightarrow> 2 * length w | Inr w \<Rightarrow> 2 * length w + 1)",
    goal_cases)
  case 1
  show ?case by simp
next
  case (2 w m n pos_max self_m pm)
  then show ?case
    using filter_max_less[of w] by (auto dest!: PackedWord_Inr)
next
  case (3 w m n pos_max self_m pm g r ct s1 s lbl f)
  then show ?case
    using filter_max_less[of w] length_gdf[of f pm] by (auto dest!: PackedWord_Inr)
next
  case (4 w f)
  then show ?case
    using length_gdf[of f w] by auto
qed


subsection \<open>The left encoder\<close>

text \<open>
  \<open>self[-1]\<close> raises \<open>IndexError\<close> on the empty word.  The label value is computed
  before the children: \<open>g_desc_fact[0][self.index(l)]\<close> and
  \<open>self[:len(g_desc_fact[0])].index(l-1)\<close> can raise; an index found in that slice is
  an index of \<open>g_desc_fact[0]\<close>.
\<close>

function packed_word_to_labelled_tree_left :: "int list \<Rightarrow> error + (nat \<times> int \<times> bool) ltree" where
  "packed_word_to_labelled_tree_left w =
     (if length w = 1 then Inr (LabelledOrderedTree [] (0, (1, False)))
      else if w = [] then Inl IndexError
      else
        (let l = last w;
             b = (l \<in> set (butlast w));
             self_l = pack (butlast w);
             g_desc_fact = global_descents_factorization self_l;
             ct = length g_desc_fact - (if b \<or> l \<noteq> Max (set w) then 1 else 0)
         in
         case
           (if b then
              (if index_of w l < length (hd g_desc_fact)
               then Inr (hd g_desc_fact ! index_of w l) else Inl IndexError)
            else if l = Max (set w) then Inr 1
            else
              (let pre = take (length (hd g_desc_fact)) w in
               if l - 1 \<in> set pre then Inr (hd g_desc_fact ! index_of pre (l - 1) + 1)
               else Inl NotInList))
         of
           Inl e \<Rightarrow> Inl e
         | Inr lbl \<Rightarrow>
             (case sequence_err (map packed_word_to_labelled_tree_left (rev g_desc_fact)) of
                Inl e \<Rightarrow> Inl e
              | Inr chn \<Rightarrow> Inr (LabelledOrderedTree chn (ct, (lbl, b))))))"
  by pat_completeness auto
termination
proof (relation "measure length", goal_cases)
  case 1
  show ?case by simp
next
  case (2 w l b self_l g ct lbl f)
  then have "w \<noteq> []" by simp
  then have "length (butlast w) < length w" by simp
  moreover have "length f \<le> length (butlast w)"
    using 2 length_gdf[of f "pack (butlast w)"] by simp
  ultimately show ?case by simp
qed

definition packed_word_to_labelled_forest_left :: "int list \<Rightarrow> error + (nat \<times> int \<times> bool) ltree list" where
  "packed_word_to_labelled_forest_left w =
     (if w = [] then Inr []
      else sequence_err (map packed_word_to_labelled_tree_left (rev (global_descents_factorization w))))"

subsection \<open>The decoders\<close>

text \<open>
  \<open>l_shifted_concat\<close>: \<open>max(w2)\<close> is evaluated once per letter of \<open>w1\<close>, so it raises
  only when \<open>w1\<close> is not empty.  \<open>t[:t.label()[0]]\<close> are the first \<open>cut\<close> children.
\<close>

definition l_shifted_concat :: "int list \<Rightarrow> int list \<Rightarrow> error + int list" where
  "l_shifted_concat w1 w2 =
     (if w1 \<noteq> [] \<and> w2 = [] then Inl MaxOfEmpty
      else PackedWord (map (\<lambda>x. x + Max (set w2)) w1 @ w2))"

fun shifted_concat_loop :: "int list \<Rightarrow> int list list \<Rightarrow> error + int list" where
  "shifted_concat_loop res [] = Inr res"
| "shifted_concat_loop res (w # ws) =
     (case l_shifted_concat res w of Inl e \<Rightarrow> Inl e | Inr r \<Rightarrow> shifted_concat_loop r ws)"

fun weight :: "(nat \<times> int list) ltree \<Rightarrow> nat" where
  "weight (LabelledOrderedTree ts lbl) = length (snd lbl) + sum_list (map weight ts)"

definition weight_l :: "(nat \<times> int list) ltree \<Rightarrow> nat" where
  "weight_l t = sum_list (map weight (take (fst (label t)) (children t)))"

fun labelled_tree_to_packed_word :: "(nat \<times> int list) ltree \<Rightarrow> error + int list"
  and labelled_forest_to_packed_word :: "(nat \<times> int list) ltree list \<Rightarrow> error + int list"
where
  "labelled_tree_to_packed_word (LabelledOrderedTree ts lbl) =
     (case labelled_forest_to_packed_word ts of
        Inl e \<Rightarrow> Inl e
      | Inr res \<Rightarrow>
          upgrade_max res
            (map (\<lambda>x. x + int (weight_l (LabelledOrderedTree ts lbl)) - 1) (snd lbl)))"
| "labelled_forest_to_packed_word [] = PackedWord []"
| "labelled_forest_to_packed_word [t] = labelled_tree_to_packed_word t"
| "labelled_forest_to_packed_word (t # t' # ts) =
     (case sequence_err (map labelled_tree_to_packed_word (t # t' # ts)) of
        Inl e \<Rightarrow> Inl e
      | Inr list_w \<Rightarrow>
          (case shifted_concat_loop [] list_w of Inl e \<Rightarrow> Inl e | Inr res \<Rightarrow> PackedWord res))"

fun nb_false :: "(nat \<times> int \<times> bool) ltree \<Rightarrow> nat" where
  "nb_false (LabelledOrderedTree ts lbl) =
     (if snd (snd lbl) then 0 else 1) + sum_list (map nb_false ts)"

definition nb_false_l :: "(nat \<times> int \<times> bool) ltree \<Rightarrow> nat" where
  "nb_false_l t = sum_list (map nb_false (take (fst (label t)) (children t)))"

fun labelled_tree_to_packed_word_left :: "(nat \<times> int \<times> bool) ltree \<Rightarrow> error + int list"
  and labelled_forest_to_packed_word_left :: "(nat \<times> int \<times> bool) ltree list \<Rightarrow> error + int list"
where
  "labelled_tree_to_packed_word_left (LabelledOrderedTree ts lbl) =
     (case labelled_forest_to_packed_word_left ts of
        Inl e \<Rightarrow> Inl e
      | Inr res \<Rightarrow>
          upgrade_last res
            (fst (snd lbl) + int (nb_false_l (LabelledOrderedTree ts lbl)), snd (snd lbl)))"
| "labelled_forest_to_packed_word_left [] = PackedWord []"
| "labelled_forest_to_packed_word_left [t] = labelled_tree_to_packed_word_left t"
| "labelled_forest_to_packed_word_left (t # t' # ts) =
     (case sequence_err (map labelled_tree_to_packed_word_left (rev (t # t' # ts))) of
        Inl e \<Rightarrow> Inl e
      | Inr list_w \<Rightarrow>
          (case shifted_concat_loop [] list_w of Inl e \<Rightarrow> Inl e | Inr res \<Rightarrow> PackedWord res))"


section \<open>The weak orders\<close>

subsection \<open>Inversions\<close>

text \<open>
  \<open>inversions(side, support, from_zero)\<close>; \<open>support=None\<close> is \<open>None\<close>.  On the left
  side \<open>self.index(i)\<close> is called for every \<open>i\<close> in \<open>range(1, m)\<close> and raises
  \<open>ValueError\<close> when a letter below the maximum is missing.
\<close>

definition inversions ::
  "int list \<Rightarrow> string \<Rightarrow> string option \<Rightarrow> bool \<Rightarrow> error + (int \<times> int) set" where
  "inversions w side support from_zero =
     (if side \<noteq> ''left'' \<and> side \<noteq> ''right'' then Inl InvalidOption
      else
        (let supp = (case support of
                       None \<Rightarrow> if side = ''right'' then ''position'' else ''value''
                     | Some s \<Rightarrow> s)
         in
         if supp \<noteq> ''position'' \<and> supp \<noteq> ''value'' then Inl InvalidOption
         else if w = [] then Inr {}
         else
           (let n = length w; m = pw_max w; fz = (if from_zero then 1 else 0) in
            if side = ''right'' then
              (if supp = ''position'' then
                 Inr (set [(int i + 1 - fz, int j + 1 - fz).
                            i \<leftarrow> [0 ..< n - 1], j \<leftarrow> [i + 1 ..< n], w ! i > w ! j])
               else
                 Inr (set [(w ! i, w ! j).
                            i \<leftarrow> [0 ..< n - 1], j \<leftarrow> [i + 1 ..< n], w ! i > w ! j]))
            else if \<not> list_all (\<lambda>v. v \<in> set w) [1 .. m - 1] then Inl NotInList
            else if supp = ''value'' then
              Inr (set [(j, i).
                         i \<leftarrow> [1 .. m - 1], j \<leftarrow> [i + 1 .. m],
                         int (index_of w i) > int n - int (index_of (rev w) j) - 1])
            else
              Inr (set [(int n - int (index_of (rev w) j) - fz, int (index_of w i) + 1 - fz).
                         i \<leftarrow> [1 .. m - 1], j \<leftarrow> [i + 1 .. m],
                         int (index_of w i) > int n - int (index_of (rev w) j) - 1]))))"

subsection \<open>Successors and predecessors\<close>

text \<open>The results are built with \<open>check=False\<close>: no validation takes place.\<close>

definition right_weak_order_succ :: "int list \<Rightarrow> int list list" where
  "right_weak_order_succ w =
     [take i w @ [w ! (i + 1), w ! i] @ drop (i + 2) w.
        i \<leftarrow> [0 ..< length w - 1], w ! i < w ! (i + 1)]"

definition right_weak_order_pred :: "int list \<Rightarrow> int list list" where
  "right_weak_order_pred w =
     [take i w @ [w ! (i + 1), w ! i] @ drop (i + 2) w.
        i \<leftarrow> [0 ..< length w - 1], w ! i > w ! (i + 1)]"

text \<open>The inner loop of the left steps: every \<open>i\<close> becomes \<open>i+1\<close> and conversely.\<close>

definition swap_letters :: "int \<Rightarrow> int list \<Rightarrow> int list" where
  "swap_letters i w = map (\<lambda>x. if x = i then i + 1 else if x = i + 1 then i else x) w"

definition left_weak_order_succ :: "int list \<Rightarrow> error + int list list" where
  "left_weak_order_succ w =
     (if w = [] then Inr []
      else if \<not> list_all (\<lambda>v. v \<in> set w) [1 .. pw_max w - 1] then Inl NotInList
      else Inr [swap_letters i w.
                  i \<leftarrow> [1 .. pw_max w - 1],
                  int (length w) - 1 - int (index_of (rev w) i) < int (index_of w (i + 1))])"

definition left_weak_order_pred :: "int list \<Rightarrow> error + int list list" where
  "left_weak_order_pred w =
     (if w = [] then Inr []
      else if \<not> list_all (\<lambda>v. v \<in> set w) [1 .. pw_max w - 1] then Inl NotInList
      else Inr [swap_letters i w.
                  i \<leftarrow> [1 .. pw_max w - 1],
                  int (index_of w i) > int (length w) - 1 - int (index_of (rev w) (i + 1))])"

subsection \<open>Comparison\<close>

text \<open>
  \<open>to_composition\<close>: \<open>evaluation_dict\<close> counts the letters; \<open>d[i+1]\<close> raises
  \<open>KeyError\<close> for a missing letter.
\<close>

definition to_composition :: "int list \<Rightarrow> error + nat list" where
  "to_composition w =
     (if w = [] then Inr []
      else if \<not> list_all (\<lambda>v. v \<in> set w) [1 .. pw_max w] then Inl KeyError
      else Inr (map (\<lambda>v. count_list w v) [1 .. pw_max w]))"

text \<open>
  \<open>to_ordered_set_partition\<close>: the loop \<open>lst[val-1] = lst[val-1] + [i+1]\<close> over
  \<open>[[]] * self._max\<close>, with Python's indexing (a negative index counts from the end).
  \<open>OrderedSetPartition\<close> is a class of the Sage library; the encoding keeps the
  list of blocks it is given.
\<close>

definition py_index :: "nat \<Rightarrow> int \<Rightarrow> error + nat" where
  "py_index n k =
     (let j = (if k < 0 then int n + k else k)
      in if 0 \<le> j \<and> j < int n then Inr (nat j) else Inl IndexError)"

fun osp_loop :: "nat list list \<Rightarrow> nat \<Rightarrow> int list \<Rightarrow> error + nat list list" where
  "osp_loop lst i [] = Inr lst"
| "osp_loop lst i (v # vs) =
     (case py_index (length lst) (v - 1) of
        Inl e \<Rightarrow> Inl e
      | Inr k \<Rightarrow> osp_loop (lst[k := lst ! k @ [i + 1]]) (i + 1) vs)"

definition to_ordered_set_partition :: "int list \<Rightarrow> error + nat list list" where
  "to_ordered_set_partition w = osp_loop (replicate (nat (pw_max w)) []) 0 w"

text \<open>
  Modelled from the spec: \<open>to_standard\<close> is the external collaborator
  \<open>Standardize(sequence) -> Permutation\<close> (Sage's \<open>sage.combinat.permutation\<close>):
  equal letters are numbered from left to right.
\<close>

definition to_standard :: "int list \<Rightarrow> int list" where
  "to_standard w =
     map (\<lambda>i. int (length (filter (\<lambda>x. x < w ! i) w))
             + int (length (filter (\<lambda>x. x = w ! i) (take (i + 1) w))))
       [0 ..< length w]"

text \<open>
  \<open>is_gequal\<close>.  \<open>set(osp)\<close> is the set of the blocks: the order of the blocks is
  dropped before the comparison.  \<open>pw.inversions()\<close> has the default arguments, the
  right inversions on positions.
\<close>

definition is_gequal :: "int list \<Rightarrow> int list \<Rightarrow> string \<Rightarrow> error + bool" where
  "is_gequal self pw side =
     (if side \<noteq> ''left'' \<and> side \<noteq> ''right'' then Inl InvalidOption
      else
        ebind (if side = ''right''
               then ebind (to_composition self) (\<lambda>c1.
                    ebind (to_composition pw) (\<lambda>c2.
                    if c1 = c2 then
                      ebind (PackedWord (to_standard self)) (\<lambda>std_self.
                      ebind (PackedWord (to_standard pw)) (\<lambda>std_pw.
                      ebind (inversions std_pw ''left'' None False) (\<lambda>i_pw.
                      ebind (inversions std_self ''left'' None False) (\<lambda>i_self.
                      Inr (Some (i_pw \<subseteq> i_self))))))
                    else Inr None))
               else Inr None)
          (\<lambda>early.
             case early of
               Some r \<Rightarrow> Inr r
             | None \<Rightarrow>
                 ebind (to_ordered_set_partition self) (\<lambda>o1.
                 ebind (to_ordered_set_partition pw) (\<lambda>o2.
                 if side = ''left'' \<and> set (map set o1) = set (map set o2) then
                   ebind (inversions pw ''right'' None False) (\<lambda>i_pw.
                   ebind (inversions self ''right'' None False) (\<lambda>i_self.
                   Inr (i_pw \<subseteq> i_self)))
                 else Inr False))))"

definition is_lequal :: "int list \<Rightarrow> int list \<Rightarrow> string \<Rightarrow> error + bool" where
  "is_lequal self pw side = is_gequal pw self side"

subsection \<open>Intervals of the right weak order\<close>

text \<open>
  \<open>RecursivelyEnumeratedSet(seeds, up, structure="graded")\<close> is a class of the Sage
  library: it yields the seeds, then level after level the successors of the level
  before, each level a Python set, until a level is empty.  A level is modelled as the
  list of its elements without repetition; the library does not fix the order in a level.
  \<open>scan_level\<close> is the body of the \<open>for\<close> loop over one level, its flag the \<open>break\<close>.
  The enumeration is lazy and not bounded by the source, so the loop over the levels
  is a partial function: \<open>None\<close> is a loop that does not end.
\<close>

fun scan_level ::
  "int list \<Rightarrow> int list list \<Rightarrow> int list list \<Rightarrow> error + int list list \<times> bool" where
  "scan_level bound [] res = Inr (res, False)"
| "scan_level bound (x # xs) res =
     ebind (is_lequal x bound ''right'') (\<lambda>le.
       if le then scan_level bound xs (res @ [x])
       else
         ebind (inversions x ''right'' None False) (\<lambda>ix.
         ebind (inversions bound ''right'' None False) (\<lambda>it.
         if card ix > card it then Inr (res, True) else scan_level bound xs res)))"

partial_function (option) interval_levels ::
  "int list \<Rightarrow> int list list \<Rightarrow> int list list \<Rightarrow> (error + int list list) option" where
  "interval_levels bound level res =
     (if level = [] then Some (Inr res)
      else
        (case scan_level bound level res of
           Inl e \<Rightarrow> Some (Inl e)
         | Inr r \<Rightarrow>
             if snd r then Some (Inr (fst r))
             else interval_levels bound (remdups (concat (map right_weak_order_succ level))) (fst r)))"

declare interval_levels.simps [code]

text \<open>
  \<open>other in self.parent()\<close>: the parent of a packed word is the set of all packed
  words, whose membership test is the validation.
\<close>

definition right_weak_order_interval ::
  "int list \<Rightarrow> int list \<Rightarrow> (error + int list list) option" where
  "right_weak_order_interval self other =
     (if \<not> is_packed other then Some (Inl (NotAMember other))
      else
        (case is_gequal self other ''right'' of
           Inl e \<Rightarrow> Some (Inl e)
         | Inr True \<Rightarrow> interval_levels self [other] []
         | Inr False \<Rightarrow>
             (case is_gequal other self ''right'' of
                Inl e \<Rightarrow> Some (Inl e)
              | Inr True \<Rightarrow> interval_levels other [self] []
              | Inr False \<Rightarrow> Some (Inr []))))"

section \<open>Properties\<close>

subsection \<open>Validation\<close>

lemma sorted_list_of_set_upto: "sorted_list_of_set {i .. j :: int} = [i .. j]"
  by (rule sorted_distinct_set_unique) auto

lemma last_upto_int: "i \<le> j \<Longrightarrow> last [i .. j :: int] = j"
  by (simp add: upto_rec2)

lemma Max_upto_int: "i \<le> j \<Longrightarrow> Max {i .. j :: int} = j"
  by (rule Max_eqI) auto

lemma check_iff:
  "check w = Inr () \<longleftrightarrow> list_all (\<lambda>a. 0 < a) w \<and> (w = [] \<or> set w = {1 .. Max (set w)})"
proof (cases "w = []")
  case True
  then show ?thesis by (simp add: check_def)
next
  case False
  define s where "s = sorted_list_of_set (set w)"
  have s: "set s = set w" "s \<noteq> []"
    using False by (auto simp: s_def)
  show ?thesis
  proof (cases "list_all (\<lambda>a. 0 < a) w")
    case pos: True
    have "s = [1 .. max 0 (last s)] \<longleftrightarrow> set w = {1 .. Max (set w)}"
    proof
      assume eq: "s = [1 .. max 0 (last s)]"
      then have "set w = {1 .. max 0 (last s)}"
        using s(1) by (metis set_upto)
      moreover from this False have "1 \<le> max 0 (last s)"
        by (metis atLeastatMost_empty_iff2 set_empty)
      ultimately show "set w = {1 .. Max (set w)}"
        using Max_upto_int[of 1 "max 0 (last s)"] by simp
    next
      assume eq: "set w = {1 .. Max (set w)}"
      then have "s = [1 .. Max (set w)]"
        unfolding s_def using sorted_list_of_set_upto by metis
      moreover have "1 \<le> Max (set w)"
        using eq False by (metis atLeastatMost_empty_iff2 set_empty)
      ultimately show "s = [1 .. max 0 (last s)]"
        using last_upto_int[of 1 "Max (set w)"] by simp
    qed
    then show ?thesis
      using pos False by (simp add: check_def Let_def s_def)
  next
    case False
    then show ?thesis by (simp add: check_def)
  qed
qed

lemma is_packed_iff: "is_packed w \<longleftrightarrow> set w = {1 .. pw_max w}"
proof (cases "w = []")
  case True
  then show ?thesis by (simp add: is_packed_def check_iff pw_max_def)
next
  case False
  have "set w = {1 .. Max (set w)} \<Longrightarrow> list_all (\<lambda>a. 0 < a) w"
    by (metis atLeastAtMost_iff list_all_iff zero_less_one_class.zero_less_one less_le_trans
        order.strict_iff_not not_le)
  then show ?thesis
    using False by (auto simp add: is_packed_def check_iff pw_max_def)
qed

lemma PackedWord_iff: "PackedWord s = Inr r \<longleftrightarrow> is_packed s \<and> r = s"
  by (auto simp: PackedWord_def is_packed_def split: sum.splits)

text \<open>
  C3, as amended.  Constructing a packed word from a sequence \<open>s\<close> of integers succeeds
  exactly when every entry fits a C \<open>int\<close> and \<open>s\<close> is empty or all its entries are
  positive and its distinct values are \<open>{1..max(s)}\<close>.  Otherwise it fails at
  construction: with \<open>OverflowError\<close> when an entry does not fit a C \<open>int\<close>; else with the
  error that reports the sequence when an entry is not positive; else with the error
  \<open>MissingLetter\<close>, whose message is a fixed text, when a value is missing.
\<close>

theorem packed_word_construction:
  "(PackedWord_init s True = Inr s \<longleftrightarrow>
      list_all fits_c_int s
      \<and> (s = [] \<or> (list_all (\<lambda>a. 0 < a) s \<and> set s = {1 .. Max (set s)})))
   \<and> (PackedWord_init s True = Inl OverflowError \<longleftrightarrow> \<not> list_all fits_c_int s)
   \<and> (PackedWord_init s True = Inl (NotPositiveIntegers s) \<longleftrightarrow>
        list_all fits_c_int s \<and> \<not> list_all (\<lambda>a. 0 < a) s)
   \<and> (PackedWord_init s True = Inl MissingLetter \<longleftrightarrow>
        list_all fits_c_int s \<and> list_all (\<lambda>a. 0 < a) s
        \<and> s \<noteq> [] \<and> set s \<noteq> {1 .. Max (set s)})"
proof -
  define P where "P \<longleftrightarrow> set s = {1 .. Max (set s)}"
  define A where "A \<longleftrightarrow> list_all (\<lambda>a. 0 < a) s"
  have e: "s = [] \<Longrightarrow> A" by (simp add: A_def)
  have a: "PackedWord s = Inr s \<longleftrightarrow> check s = Inr ()"
    by (auto simp: PackedWord_def split: sum.splits)
  have d: "PackedWord s = Inl x \<longleftrightarrow> check s = Inl x" for x
    by (auto simp: PackedWord_def split: sum.splits)
  have b: "check s = Inr () \<or> check s = Inl MissingLetter \<or> check s = Inl (NotPositiveIntegers s)"
    by (simp add: check_def Let_def)
  have c: "check s = Inl (NotPositiveIntegers s) \<longleftrightarrow> \<not> A"
    by (simp add: check_def Let_def A_def)
  have r: "check s = Inr () \<longleftrightarrow> A \<and> (s = [] \<or> P)"
    unfolding A_def P_def by (rule check_iff)
  have n1: "check s \<noteq> Inl OverflowError"
    using b by auto
  have n2: "\<not> (check s = Inr () \<and> check s = Inl x)" for x
    by simp
  have n3: "\<not> (check s = Inl MissingLetter \<and> check s = Inl (NotPositiveIntegers s))"
    by simp
  have m: "check s = Inl MissingLetter \<longleftrightarrow> A \<and> s \<noteq> [] \<and> \<not> P"
    using b c r n2[of MissingLetter] n2[of "NotPositiveIntegers s"] n3 by blast
  show ?thesis
  proof (cases "list_all fits_c_int s")
    case False
    then have "PackedWord_init s True = Inl OverflowError"
      by (simp add: PackedWord_init_def)
    with False show ?thesis by simp
  next
    case True
    then have i: "PackedWord_init s True = PackedWord s"
      by (simp add: PackedWord_init_def)
    have 1: "PackedWord_init s True = Inr s \<longleftrightarrow> list_all fits_c_int s \<and> (s = [] \<or> (A \<and> P))"
      unfolding i a r using True e by blast
    have 2: "PackedWord_init s True = Inl OverflowError \<longleftrightarrow> \<not> list_all fits_c_int s"
      unfolding i d using True n1 by blast
    have 3: "PackedWord_init s True = Inl (NotPositiveIntegers s) \<longleftrightarrow> list_all fits_c_int s \<and> \<not> A"
      unfolding i d c using True by blast
    have 4: "PackedWord_init s True = Inl MissingLetter \<longleftrightarrow> list_all fits_c_int s \<and> A \<and> s \<noteq> [] \<and> \<not> P"
      unfolding i d m using True by blast
    from 1 2 3 4 show ?thesis
      unfolding A_def P_def by (intro conjI)
  qed
qed

theorem packed_word_construction_witness:
  "PackedWord_init [2, 1, 2] True = Inr [2, 1, 2]
   \<and> PackedWord_init [1, 2147483648, 0] True = Inl OverflowError
   \<and> PackedWord_init [1, 0] True = Inl (NotPositiveIntegers [1, 0])"
proof -
  have f: "list_all fits_c_int [2, 1, 2]" "\<not> list_all fits_c_int [1, 2147483648, 0]"
    "list_all fits_c_int [1, 0]"
    by (simp_all add: fits_c_int_def)
  have q: "list_all (\<lambda>a. 0 < a) [2, 1, 2::int]" "\<not> list_all (\<lambda>a. 0 < a) [1, 0::int]"
    by simp_all
  have p: "set [2, 1, 2] = {1 .. Max (set [2, 1, 2::int])}"
    by (auto simp add: set_upto[symmetric] upto.simps simp del: set_upto)
  have 1: "PackedWord_init [2, 1, 2] True = Inr [2, 1, 2]"
    using packed_word_construction[of "[2, 1, 2]"] f(1) q(1) p by blast
  have 2: "PackedWord_init [1, 2147483648, 0] True = Inl OverflowError"
    using packed_word_construction[of "[1, 2147483648, 0]"] f(2) by blast
  have 3: "PackedWord_init [1, 0] True = Inl (NotPositiveIntegers [1, 0])"
    using packed_word_construction[of "[1, 0]"] f(3) q(2) by blast
  from 1 2 3 show ?thesis by (intro conjI)
qed

text \<open>
  C3 as stated fails: the error raised for \<open>[2]\<close> does not report the sequence.
\<close>

theorem missing_letter_error_without_sequence:
  "\<not> (\<exists>e. PackedWord_init [2] True = Inl e \<and> reported_sequence e = Some [2])"
  by (simp add: PackedWord_init_def fits_c_int_def PackedWord_def check_def)

subsection \<open>The cut of the left encoder\<close>

declare packed_word_to_labelled_tree_left.simps [simp del]
declare packed_word_to_labelled_tree.simps [simp del]
declare packed_word_to_labelled_forest.simps [simp del]

text \<open>
  The rule of C5 in the spec's words: the cut is \<open>len(factors) - 1\<close> unless \<open>b\<close> is false
  and \<open>l\<close> is not the prefix maximum, in which case it is \<open>len(factors)\<close>.
\<close>

definition cut_as_stated :: "int list \<Rightarrow> nat" where
  "cut_as_stated w =
     (let l = last w;
          b = (l \<in> set (butlast w));
          factors = global_descents_factorization (pack (butlast w))
      in if \<not> b \<and> l \<noteq> Max (set (butlast w)) then length factors else length factors - 1)"

text \<open>
  C5 as stated fails at \<open>[1, 3, 2]\<close>: the last letter \<open>2\<close> is new and is not the prefix
  maximum \<open>3\<close>, the rule as stated gives the cut \<open>len(factors) = 1\<close>, the encoder gives \<open>0\<close>.
\<close>

theorem left_tree_cut_counterexample:
  "is_packed [1, 3, 2]
   \<and> map_sum id (\<lambda>t. fst (label t)) (packed_word_to_labelled_tree_left [1, 3, 2]) = Inr 0
   \<and> cut_as_stated [1, 3, 2] = 1"
  by code_simp

lemma new_maximum_iff:
  assumes "w \<noteq> []"
  shows "(\<forall>x\<in>set (butlast w). x < last w)
         \<longleftrightarrow> \<not> (last w \<in> set (butlast w) \<or> last w \<noteq> Max (set (w :: int list)))"
proof -
  have sw: "set w = insert (last w) (set (butlast w))"
    using assms by (metis append_butlast_last_id list.simps(15) rotate1.simps(2) set_rotate1)
  show ?thesis
  proof
    assume a: "\<forall>x\<in>set (butlast w). x < last w"
    then have "last w \<notin> set (butlast w)" by auto
    moreover have "Max (set w) = last w"
      using a sw by (intro Max_eqI) auto
    ultimately show "\<not> (last w \<in> set (butlast w) \<or> last w \<noteq> Max (set w))" by simp
  next
    assume a: "\<not> (last w \<in> set (butlast w) \<or> last w \<noteq> Max (set w))"
    show "\<forall>x\<in>set (butlast w). x < last w"
    proof
      fix x assume x: "x \<in> set (butlast w)"
      then have "x \<le> Max (set w)" using sw by simp
      with a x show "x < last w" by (metis order_le_less)
    qed
  qed
qed

text \<open>
  C5, as amended.  For a word \<open>w\<close> of length at least 2 that the left encoder encodes, the
  cut is \<open>len(factors)\<close> when the last letter is greater than every letter of the prefix
  (it is new and the maximum of \<open>w\<close>), and \<open>len(factors) - 1\<close> otherwise.
\<close>

theorem left_tree_cut:
  assumes "2 \<le> length w" and "packed_word_to_labelled_tree_left w = Inr t"
  shows "fst (label t) =
           (if \<forall>x\<in>set (butlast w). x < last w
            then length (global_descents_factorization (pack (butlast w)))
            else length (global_descents_factorization (pack (butlast w))) - 1)"
proof -
  have ne: "w \<noteq> []" "length w \<noteq> 1" using assms(1) by auto
  show ?thesis
    using assms(2) new_maximum_iff[OF ne(1)] assms(1)
    by (subst (asm) packed_word_to_labelled_tree_left.simps)
       (auto simp: Let_def split: sum.splits if_splits)
qed

theorem left_tree_cut_witness:
  "packed_word_to_labelled_tree_left [1, 3, 2]
     = Inr (LabelledOrderedTree
             [LabelledOrderedTree [LabelledOrderedTree [] (0, 1, False)] (1, 1, False)]
             (0, 2, False))
   \<and> length (global_descents_factorization (pack (butlast [1, 3, 2]))) - 1 = 0
   \<and> packed_word_to_labelled_tree_left [1, 2]
     = Inr (LabelledOrderedTree [LabelledOrderedTree [] (0, 1, False)] (1, 1, False))
   \<and> length (global_descents_factorization (pack (butlast [1, 2]))) = 1"
proof -
  have a: "packed_word_to_labelled_tree_left [1, 3, 2]
     = Inr (LabelledOrderedTree
             [LabelledOrderedTree [LabelledOrderedTree [] (0, 1, False)] (1, 1, False)]
             (0, 2, False))"
    by code_simp
  have b: "packed_word_to_labelled_tree_left [1, 2]
     = Inr (LabelledOrderedTree [LabelledOrderedTree [] (0, 1, False)] (1, 1, False))"
    by code_simp
  have l: "2 \<le> length [1, 3, 2 :: int]" "2 \<le> length [1, 2 :: int]" by simp_all
  show ?thesis
    using left_tree_cut[OF l(1) a] left_tree_cut[OF l(2) b] a b by simp
qed

subsection \<open>Intervals\<close>

text \<open>
  C8.  \<open>right_weak_order_interval\<close> applied to \<open>[1,2,1]\<close> and \<open>[2,1,1]\<close> returns the two
  words \<open>[1,2,1]\<close> and \<open>[2,1,1]\<close>; applied to \<open>[1,2,1]\<close> and \<open>[2,1,2]\<close> it returns the
  empty collection, and does not fail.
\<close>

theorem right_weak_order_interval_scenario:
  "right_weak_order_interval [1, 2, 1] [2, 1, 1] = Some (Inr [[1, 2, 1], [2, 1, 1]])
   \<and> right_weak_order_interval [1, 2, 1] [2, 1, 2] = Some (Inr [])"
  by code_simp

subsection \<open>The particularity predicate on the empty word\<close>

text \<open>
  C10. \<open>is_particular\<close> applied to the empty packed word raises, for
  \<open>side="right"\<close> and for \<open>side="left"\<close>.
\<close>

theorem is_particular_empty_raises:
  "is_particular [] ''right'' = Inl EmptyWord \<and> is_particular [] ''left'' = Inl EmptyWord"
  by (simp add: is_particular_def)

subsection \<open>Insertion of a new maximum\<close>

lemma insert_at_split: "\<exists>k. insert_at m res p = take k res @ m # drop k res"
  by (auto simp add: insert_at_def py_take_def py_drop_def)

lemma length_insert_at [simp]: "length (insert_at m res p) = Suc (length res)"
proof -
  obtain k where "insert_at m res p = take k res @ m # drop k res"
    using insert_at_split by blast
  then show ?thesis by simp
qed

lemma length_foldl_insert_at [simp]:
  "length (foldl (insert_at m) u l) = length u + length l"
  by (induction l arbitrary: u) auto

lemma filter_insert_at [simp]:
  "filter (\<lambda>x. x \<noteq> m) (insert_at m res p) = filter (\<lambda>x. x \<noteq> m) res"
proof -
  obtain k where k: "insert_at m res p = take k res @ m # drop k res"
    using insert_at_split by blast
  have "filter (\<lambda>x. x \<noteq> m) (take k res) @ filter (\<lambda>x. x \<noteq> m) (drop k res)
        = filter (\<lambda>x. x \<noteq> m) res"
    by (metis append_take_drop_id filter_append)
  then show ?thesis unfolding k by simp
qed

lemma filter_foldl_insert_at [simp]:
  "filter (\<lambda>x. x \<noteq> m) (foldl (insert_at m) u l) = filter (\<lambda>x. x \<noteq> m) u"
  by (induction l arbitrary: u) auto

lemma set_insert_at [simp]: "set (insert_at m res p) = insert m (set res)"
proof -
  obtain k where k: "insert_at m res p = take k res @ m # drop k res"
    using insert_at_split by blast
  have "set (take k res) \<union> set (drop k res) = set res"
    by (metis append_take_drop_id set_append)
  then show ?thesis unfolding k by simp
qed

lemma set_foldl_insert_at':
  "set (foldl (insert_at m) u l) = (if l = [] then set u else insert m (set u))"
  by (induction l arbitrary: u) auto

lemma set_foldl_insert_at:
  "l \<noteq> [] \<Longrightarrow> set (foldl (insert_at m) u l) = insert m (set u)"
  by (simp add: set_foldl_insert_at')

lemma foldl_insert_at_nth:
  assumes "sorted l" and "q \<in> set l" and "0 \<le> q"
  shows "foldl (insert_at m) u l ! min (nat q) (length u + length l - 1) = m"
  using assms
proof (induction l rule: rev_induct)
  case Nil
  then show ?case by simp
next
  case (snoc p ps)
  define r where "r = foldl (insert_at m) u ps"
  define L where "L = length u + length ps"
  have len: "length r = L" by (simp add: r_def L_def)
  have sorted_ps: "sorted ps" and le_p: "\<forall>x\<in>set ps. x \<le> p"
    using snoc.prems(1) by (auto simp: sorted_append)
  have p0: "0 \<le> p" using snoc.prems le_p by auto
  have res: "foldl (insert_at m) u (ps @ [p]) = take (nat p) r @ [m] @ drop (nat p) r"
    using p0 by (simp add: r_def insert_at_def py_take_def py_drop_def)
  have goal_idx: "length u + length (ps @ [p]) - 1 = L" by (simp add: L_def)
  show ?case
  proof (cases "nat p \<ge> L")
    case True
    then have "foldl (insert_at m) u (ps @ [p]) = r @ [m]"
      using res len by simp
    moreover have "min (nat q) L = L \<or> (nat q < L \<and> q \<in> set ps)"
      using snoc.prems(2) True by auto
    moreover have "r ! nat q = m" if "nat q < L" "q \<in> set ps"
      using snoc.IH[OF sorted_ps that(2) snoc.prems(3)] that(1) by (simp add: r_def L_def min_def split: if_splits)
    ultimately show ?thesis
      unfolding goal_idx using len by (auto simp: nth_append min_def)
  next
    case False
    then have pl: "nat p < L" by simp
    have at_p: "(take (nat p) r @ [m] @ drop (nat p) r) ! nat p = m"
      using pl len by (simp add: nth_append)
    show ?thesis
    proof (cases "q = p")
      case True
      then show ?thesis unfolding goal_idx res using at_p pl by (simp add: min_def)
    next
      case False
      then have qps: "q \<in> set ps" using snoc.prems(2) by simp
      then have "q \<le> p" using le_p by simp
      with False have qp: "nat q < nat p" using snoc.prems(3) by simp
      have "r ! min (nat q) (length u + length ps - 1) = m"
        using snoc.IH[OF sorted_ps qps snoc.prems(3)] by (simp add: r_def)
      moreover have "nat q \<le> length u + length ps - 1" using qp pl unfolding L_def by linarith
      ultimately have "r ! nat q = m" by (simp add: min_def)
      moreover have "min (nat q) L = nat q"
        using qp pl by linarith
      moreover have "length (take (nat p) r) = nat p"
        using pl len by simp
      then have "nat q < length (take (nat p) r)"
        using qp by linarith
      ultimately show ?thesis
        unfolding goal_idx res by (simp add: nth_append)
    qed
  qed
qed

lemma foldl_insert_at_replicate:
  "foldl (insert_at m) (replicate k m) l = replicate (k + length l) m"
proof (induction l arbitrary: k)
  case Nil
  then show ?case by simp
next
  case (Cons p ps)
  obtain j where j: "insert_at m (replicate k m) p
      = take j (replicate k m) @ m # drop j (replicate k m)"
    using insert_at_split by blast
  have "take j (replicate k m) @ m # drop j (replicate k m)
        = replicate (min j k) m @ replicate (Suc (k - j)) m"
    by simp
  also have "\<dots> = replicate (Suc k) m"
    by (simp only: replicate_add[symmetric]) (simp add: min_def)
  finally have "insert_at m (replicate k m) p = replicate (Suc k) m"
    using j by simp
  then show ?case using Cons.IH[of "Suc k"] by simp
qed

lemma is_packed_nonempty_Max:
  assumes "is_packed w" and "w \<noteq> []"
  shows "set w = {1 .. Max (set w)}" and "1 \<le> Max (set w)"
proof -
  show s: "set w = {1 .. Max (set w)}"
    using assms by (simp add: is_packed_iff pw_max_def)
  have "Max (set w) \<in> set w" using assms(2) by simp
  then show "1 \<le> Max (set w)" using s by (metis atLeastAtMost_iff)
qed

lemma is_packed_setI:
  assumes "set r = {1 .. k}"
  shows "is_packed r"
proof (cases "r = []")
  case True
  then show ?thesis by (simp add: is_packed_iff pw_max_def)
next
  case False
  then have "1 \<le> k" using assms by (metis atLeastatMost_empty_iff2 set_empty)
  then have "Max (set r) = k" using assms by (simp add: Max_upto_int)
  then show ?thesis using assms False by (simp add: is_packed_iff pw_max_def)
qed

lemma is_packed_insert_max:
  assumes "is_packed w" and "w \<noteq> []" and "set r = insert (Max (set w) + 1) (set w)"
  shows "is_packed r"
proof -
  have "set r = insert (Max (set w) + 1) {1 .. Max (set w)}"
    using is_packed_nonempty_Max(1)[OF assms(1,2)] assms(3) by simp
  also have "\<dots> = {1 .. Max (set w) + 1}"
    using is_packed_nonempty_Max(2)[OF assms(1,2)] by auto
  finally show ?thesis by (rule is_packed_setI)
qed

lemma is_packed_replicate_1: "is_packed (replicate n 1)"
proof (cases n)
  case 0
  then show ?thesis by (simp add: is_packed_iff pw_max_def)
next
  case (Suc k)
  then have "set (replicate n (1::int)) = {1 .. 1}" by auto
  then show ?thesis by (rule is_packed_setI)
qed

lemma sorted_le_last: "sorted l \<Longrightarrow> p \<in> set l \<Longrightarrow> p \<le> last (l :: int list)"
  by (induction l) auto

text \<open>
  C6, as amended.  For a packed word \<open>w\<close> and a list of positions \<open>l\<close>: \<open>upgrade_max\<close>
  fails with \<open>EmptyInsertionList\<close> when \<open>l\<close> is empty; on the empty word it checks
  nothing more and returns the word of \<open>len(l)\<close> ones; on a non-empty word it fails with a
  position mismatch when \<open>l\<close> is not sorted or its last position exceeds
  \<open>len(w) + len(l) - 1\<close>, and otherwise returns a word of length \<open>len(w) + len(l)\<close> that
  has \<open>max(w) + 1\<close> at each given non-negative position and is \<open>w\<close> once these letters are
  removed.
\<close>

theorem upgrade_max_spec:
  assumes "is_packed w"
  shows "(l = [] \<longrightarrow> upgrade_max w l = Inl EmptyInsertionList)
    \<and> (l \<noteq> [] \<and> w = [] \<longrightarrow> upgrade_max w l = Inr (replicate (length l) 1))
    \<and> (l \<noteq> [] \<and> w \<noteq> [] \<and> sort l \<noteq> l \<longrightarrow> upgrade_max w l = Inl (PositionsNotOrdered l))
    \<and> (l \<noteq> [] \<and> w \<noteq> [] \<and> sort l = l \<and> last l > int (length w) + int (length l) - 1
         \<longrightarrow> upgrade_max w l = Inl (PositionsDoNotMatch l w))
    \<and> (l \<noteq> [] \<and> w \<noteq> [] \<and> sort l = l \<and> last l \<le> int (length w) + int (length l) - 1
         \<longrightarrow> (\<exists>r. upgrade_max w l = Inr r
                \<and> length r = length w + length l
                \<and> filter (\<lambda>x. x \<noteq> Max (set w) + 1) r = w
                \<and> (\<forall>p\<in>set l. 0 \<le> p \<longrightarrow> r ! nat p = Max (set w) + 1)))"
proof (intro conjI impI)
  show "upgrade_max w l = Inl EmptyInsertionList" if "l = []"
    using that by (simp add: upgrade_max_def)
  show "upgrade_max w l = Inr (replicate (length l) 1)" if "l \<noteq> [] \<and> w = []"
    using that foldl_insert_at_replicate[of 1 0 l] is_packed_replicate_1[of "length l"]
    by (simp add: upgrade_max_def PackedWord_iff)
  show "upgrade_max w l = Inl (PositionsNotOrdered l)" if "l \<noteq> [] \<and> w \<noteq> [] \<and> sort l \<noteq> l"
    using that by (simp add: upgrade_max_def)
  show "upgrade_max w l = Inl (PositionsDoNotMatch l w)"
    if "l \<noteq> [] \<and> w \<noteq> [] \<and> sort l = l \<and> last l > int (length w) + int (length l) - 1"
    using that by (simp add: upgrade_max_def)
  show "\<exists>r. upgrade_max w l = Inr r
                \<and> length r = length w + length l
                \<and> filter (\<lambda>x. x \<noteq> Max (set w) + 1) r = w
                \<and> (\<forall>p\<in>set l. 0 \<le> p \<longrightarrow> r ! nat p = Max (set w) + 1)"
    if h: "l \<noteq> [] \<and> w \<noteq> [] \<and> sort l = l \<and> last l \<le> int (length w) + int (length l) - 1"
  proof -
    define m where "m = Max (set w) + 1"
    define r where "r = foldl (insert_at m) w l"
    have sorted: "sorted l" using h by (metis sorted_sort)
    have "set r = insert m (set w)"
      using h by (simp add: r_def set_foldl_insert_at)
    then have "is_packed r"
      using is_packed_insert_max[OF assms] h by (simp add: m_def)
    then have 1: "upgrade_max w l = Inr r"
      using h by (simp add: upgrade_max_def PackedWord_iff r_def m_def)
    have "\<forall>x\<in>set w. x \<noteq> m"
      unfolding m_def using Max_ge[of "set w"] by fastforce
    then have 2: "filter (\<lambda>x. x \<noteq> m) r = w"
      by (simp add: r_def filter_id_conv)
    have 3: "r ! nat p = m" if p: "p \<in> set l" "0 \<le> p" for p
    proof -
      have "p \<le> last l"
        using sorted p(1) by (rule sorted_le_last)
      then have "nat p \<le> length w + length l - 1"
        using h p(2) by linarith
      then show ?thesis
        using foldl_insert_at_nth[OF sorted p, of m w] by (simp add: r_def min_def)
    qed
    show ?thesis
      using 1 2 3 by (auto simp: r_def m_def)
  qed
qed

theorem upgrade_max_spec_witness:
  "upgrade_max [1, 2, 1] [] = Inl EmptyInsertionList
   \<and> upgrade_max [] [0, 0] = Inr [1, 1]
   \<and> upgrade_max [1, 2, 1] [1, 0] = Inl (PositionsNotOrdered [1, 0])
   \<and> upgrade_max [1, 2, 1] [0, 5] = Inl (PositionsDoNotMatch [0, 5] [1, 2, 1])
   \<and> upgrade_max [1, 2, 1] [0, 1, 3] = Inr [3, 3, 1, 3, 2, 1]"
proof -
  have p: "is_packed [1, 2, 1]" "is_packed []" by code_simp+
  have e: "upgrade_max [1, 2, 1] [0, 1, 3] = Inr [3, 3, 1, 3, 2, 1]" by code_simp
  have s: "sort [1, 0] \<noteq> [1, 0 :: int]" "sort [0, 5] = [0, 5 :: int]" by simp_all
  show ?thesis
    using upgrade_max_spec[OF p(1), of "[]"] upgrade_max_spec[OF p(2), of "[0, 0]"]
      upgrade_max_spec[OF p(1), of "[1, 0]"] upgrade_max_spec[OF p(1), of "[0, 5]"] e s
    by (simp add: numeral_2_eq_2)
qed

text \<open>
  C6 as stated fails on the empty word: the list \<open>[1, 0]\<close> is not sorted and its last
  position is within the bound, and \<open>upgrade_max\<close> returns \<open>[1, 1]\<close>; the list \<open>[5]\<close>
  exceeds the bound, and \<open>upgrade_max\<close> returns \<open>[1]\<close>.
\<close>

theorem upgrade_max_empty_word_counterexample:
  "is_packed [] \<and> sort [1, 0] \<noteq> [1, 0 :: int] \<and> upgrade_max [] [1, 0] = Inr [1, 1]
   \<and> last [5] > int (length ([] :: int list)) + int (length [5 :: int]) - 1
   \<and> upgrade_max [] [5] = Inr [1]"
  by code_simp

subsection \<open>The steps of the weak orders keep words packed\<close>

definition swap_adjacent :: "nat \<Rightarrow> int list \<Rightarrow> int list" where
  "swap_adjacent i w = take i w @ [w ! (i + 1), w ! i] @ drop (i + 2) w"

lemma right_weak_order_succ_iff:
  "v \<in> set (right_weak_order_succ w)
   \<longleftrightarrow> (\<exists>i. i + 1 < length w \<and> w ! i < w ! (i + 1) \<and> v = swap_adjacent i w)"
  by (fastforce simp: right_weak_order_succ_def swap_adjacent_def less_diff_conv)

lemma right_weak_order_pred_iff:
  "v \<in> set (right_weak_order_pred w)
   \<longleftrightarrow> (\<exists>i. i + 1 < length w \<and> w ! i > w ! (i + 1) \<and> v = swap_adjacent i w)"
  by (fastforce simp: right_weak_order_pred_def swap_adjacent_def less_diff_conv)

lemma split_at_adjacent:
  assumes "i + 1 < length w"
  shows "w = take i w @ [w ! i, w ! (i + 1)] @ drop (i + 2) w"
proof -
  have "drop i w = w ! i # drop (Suc i) w"
    using assms by (simp add: Cons_nth_drop_Suc)
  moreover have "drop (Suc i) w = w ! (Suc i) # drop (Suc (Suc i)) w"
    using assms by (simp add: Cons_nth_drop_Suc)
  ultimately have "take i w @ [w ! i, w ! (i + 1)] @ drop (i + 2) w = take i w @ drop i w"
    by simp
  then show ?thesis by simp
qed

lemma mset_swap_adjacent:
  assumes "i + 1 < length w"
  shows "mset (swap_adjacent i w) = mset w"
proof -
  have "mset w = mset (take i w @ [w ! i, w ! (i + 1)] @ drop (i + 2) w)"
    using split_at_adjacent[OF assms] by simp
  then show ?thesis by (simp add: swap_adjacent_def)
qed

lemma length_swap_adjacent:
  "i + 1 < length w \<Longrightarrow> length (swap_adjacent i w) = length w"
  by (metis mset_swap_adjacent size_mset)

lemma is_packed_cong_set:
  assumes "is_packed u" and "set v = set u"
  shows "is_packed v"
proof -
  have "v = [] \<longleftrightarrow> u = []" using assms(2) by (metis set_empty)
  then have "pw_max v = pw_max u" using assms(2) by (simp add: pw_max_def)
  then show ?thesis using assms by (simp add: is_packed_iff)
qed

lemma is_packed_letters:
  assumes "is_packed w"
  shows "x \<in> set w \<longleftrightarrow> 1 \<le> x \<and> x \<le> pw_max w"
  using assms by (auto simp: is_packed_iff)

lemma set_swap_letters:
  assumes "is_packed w" and "1 \<le> i" and "i < pw_max w"
  shows "set (swap_letters i w) = set w"
proof -
  have a: "i \<in> set w" "i + 1 \<in> set w"
    using assms by (simp_all add: is_packed_letters)
  show ?thesis
    unfolding swap_letters_def using a by (auto simp: image_iff)
qed

lemma length_swap_letters [simp]: "length (swap_letters i w) = length w"
  by (simp add: swap_letters_def)

lemma is_packed_all_letters:
  assumes "is_packed w"
  shows "list_all (\<lambda>v. v \<in> set w) [1 .. pw_max w - 1]"
  using assms by (auto simp: list_all_iff is_packed_letters)

lemma left_weak_order_succ_packed:
  assumes "is_packed w"
  shows "left_weak_order_succ w =
    Inr [swap_letters i w.
           i \<leftarrow> [1 .. pw_max w - 1],
           int (length w) - 1 - int (index_of (rev w) i) < int (index_of w (i + 1))]"
proof (cases "w = []")
  case True
  then show ?thesis by (simp add: left_weak_order_succ_def pw_max_def)
next
  case False
  then show ?thesis
    using is_packed_all_letters[OF assms] by (simp add: left_weak_order_succ_def)
qed

lemma left_weak_order_pred_packed:
  assumes "is_packed w"
  shows "left_weak_order_pred w =
    Inr [swap_letters i w.
           i \<leftarrow> [1 .. pw_max w - 1],
           int (index_of w i) > int (length w) - 1 - int (index_of (rev w) (i + 1))]"
proof (cases "w = []")
  case True
  then show ?thesis by (simp add: left_weak_order_pred_def pw_max_def)
next
  case False
  then show ?thesis
    using is_packed_all_letters[OF assms] by (simp add: left_weak_order_pred_def)
qed

lemma count_list_swap_letters:
  "count_list (swap_letters a w) x
     = count_list w (if x = a then a + 1 else if x = a + 1 then a else x)"
  by (induction w) (auto simp: swap_letters_def)

lemma left_step_exchange:
  assumes "is_packed u" and "1 \<le> a" and "a < pw_max u" and "v = swap_letters a u"
  shows "is_packed v \<and> length v = length u \<and> set v = set u
    \<and> (\<exists>a. 1 \<le> a \<and> a < pw_max u
          \<and> v = map (\<lambda>x. if x = a then a + 1 else if x = a + 1 then a else x) u
          \<and> count_list v a = count_list u (a + 1)
          \<and> count_list v (a + 1) = count_list u a
          \<and> (\<forall>x. x \<noteq> a \<and> x \<noteq> a + 1 \<longrightarrow> count_list v x = count_list u x))"
proof -
  have s: "set v = set u"
    using set_swap_letters[OF assms(1,2,3)] assms(4) by simp
  have p: "is_packed v"
    using is_packed_cong_set[OF assms(1) s] .
  have l: "length v = length u"
    using assms(4) by simp
  have m: "v = map (\<lambda>x. if x = a then a + 1 else if x = a + 1 then a else x) u"
    using assms(4) by (simp add: swap_letters_def)
  have c1: "count_list v a = count_list u (a + 1)"
    unfolding assms(4) count_list_swap_letters by simp
  have c2: "count_list v (a + 1) = count_list u a"
    unfolding assms(4) count_list_swap_letters by simp
  have c3: "\<forall>x. x \<noteq> a \<and> x \<noteq> a + 1 \<longrightarrow> count_list v x = count_list u x"
    unfolding assms(4) count_list_swap_letters by simp
  from assms(2,3) m c1 c2 c3 have
    "\<exists>a. 1 \<le> a \<and> a < pw_max u
          \<and> v = map (\<lambda>x. if x = a then a + 1 else if x = a + 1 then a else x) u
          \<and> count_list v a = count_list u (a + 1)
          \<and> count_list v (a + 1) = count_list u a
          \<and> (\<forall>x. x \<noteq> a \<and> x \<noteq> a + 1 \<longrightarrow> count_list v x = count_list u x)"
    by (intro exI[of _ a] conjI)
  with p l s show ?thesis by (intro conjI)
qed

lemma left_steps_are_swaps:
  assumes "is_packed u"
  shows "\<exists>s p. left_weak_order_succ u = Inr s \<and> left_weak_order_pred u = Inr p
    \<and> (\<forall>v \<in> set s \<union> set p. \<exists>a. 1 \<le> a \<and> a < pw_max u \<and> v = swap_letters a u)"
  unfolding left_weak_order_succ_packed[OF assms] left_weak_order_pred_packed[OF assms]
  by fastforce

text \<open>
  C9, as amended.  Every word returned by \<open>right_weak_order_succ\<close>,
  \<open>right_weak_order_pred\<close>, \<open>left_weak_order_succ\<close> or \<open>left_weak_order_pred\<close> on a
  packed word is a packed word of the same size.  A step of the right order keeps the
  multiset of the letters.  A step of the left order keeps the set of the letters: for some
  letter \<open>a\<close> with \<open>1 \<le> a < max\<close> it replaces every \<open>a\<close> by \<open>a + 1\<close> and every \<open>a + 1\<close> by
  \<open>a\<close>, position by position, so that the numbers of occurrences of \<open>a\<close> and of \<open>a + 1\<close>
  are exchanged and those of the other letters are kept.
\<close>

theorem weak_order_steps_packed:
  assumes "is_packed u"
  shows "(\<forall>v \<in> set (right_weak_order_succ u) \<union> set (right_weak_order_pred u).
            is_packed v \<and> length v = length u \<and> mset v = mset u)
    \<and> (\<exists>s p. left_weak_order_succ u = Inr s \<and> left_weak_order_pred u = Inr p
          \<and> (\<forall>v \<in> set s \<union> set p.
                is_packed v \<and> length v = length u \<and> set v = set u
                \<and> (\<exists>a. 1 \<le> a \<and> a < pw_max u
                      \<and> v = map (\<lambda>x. if x = a then a + 1 else if x = a + 1 then a else x) u
                      \<and> count_list v a = count_list u (a + 1)
                      \<and> count_list v (a + 1) = count_list u a
                      \<and> (\<forall>x. x \<noteq> a \<and> x \<noteq> a + 1
                              \<longrightarrow> count_list v x = count_list u x))))"
proof
  show "\<forall>v \<in> set (right_weak_order_succ u) \<union> set (right_weak_order_pred u).
            is_packed v \<and> length v = length u \<and> mset v = mset u"
  proof
    fix v assume "v \<in> set (right_weak_order_succ u) \<union> set (right_weak_order_pred u)"
    then obtain i where i: "i + 1 < length u" "v = swap_adjacent i u"
      by (auto simp: right_weak_order_succ_iff right_weak_order_pred_iff)
    have m: "mset v = mset u" using i by (simp add: mset_swap_adjacent)
    then have "set v = set u" by (metis set_mset_mset)
    then show "is_packed v \<and> length v = length u \<and> mset v = mset u"
      using m is_packed_cong_set[OF assms] i by (simp add: length_swap_adjacent)
  qed
next
  obtain s p where sp: "left_weak_order_succ u = Inr s" "left_weak_order_pred u = Inr p"
    and sw: "\<forall>v \<in> set s \<union> set p. \<exists>a. 1 \<le> a \<and> a < pw_max u \<and> v = swap_letters a u"
    using left_steps_are_swaps[OF assms] by blast
  have "\<forall>v \<in> set s \<union> set p.
          is_packed v \<and> length v = length u \<and> set v = set u
          \<and> (\<exists>a. 1 \<le> a \<and> a < pw_max u
                \<and> v = map (\<lambda>x. if x = a then a + 1 else if x = a + 1 then a else x) u
                \<and> count_list v a = count_list u (a + 1)
                \<and> count_list v (a + 1) = count_list u a
                \<and> (\<forall>x. x \<noteq> a \<and> x \<noteq> a + 1 \<longrightarrow> count_list v x = count_list u x))"
  proof
    fix v assume "v \<in> set s \<union> set p"
    with sw obtain a where a: "1 \<le> a" "a < pw_max u" "v = swap_letters a u"
      by blast
    show "is_packed v \<and> length v = length u \<and> set v = set u
          \<and> (\<exists>a. 1 \<le> a \<and> a < pw_max u
                \<and> v = map (\<lambda>x. if x = a then a + 1 else if x = a + 1 then a else x) u
                \<and> count_list v a = count_list u (a + 1)
                \<and> count_list v (a + 1) = count_list u a
                \<and> (\<forall>x. x \<noteq> a \<and> x \<noteq> a + 1 \<longrightarrow> count_list v x = count_list u x))"
      by (rule left_step_exchange[OF assms a])
  qed
  with sp show "\<exists>s p. left_weak_order_succ u = Inr s \<and> left_weak_order_pred u = Inr p
          \<and> (\<forall>v \<in> set s \<union> set p.
                is_packed v \<and> length v = length u \<and> set v = set u
                \<and> (\<exists>a. 1 \<le> a \<and> a < pw_max u
                      \<and> v = map (\<lambda>x. if x = a then a + 1 else if x = a + 1 then a else x) u
                      \<and> count_list v a = count_list u (a + 1)
                      \<and> count_list v (a + 1) = count_list u a
                      \<and> (\<forall>x. x \<noteq> a \<and> x \<noteq> a + 1
                              \<longrightarrow> count_list v x = count_list u x)))"
    by blast
qed

theorem weak_order_steps_packed_witness:
  "right_weak_order_succ [1, 2, 1] = [[2, 1, 1]]
   \<and> is_packed [2, 1, 1] \<and> length [2, 1, 1 :: int] = length [1, 2, 1 :: int]
   \<and> mset [2, 1, 1 :: int] = mset [1, 2, 1]
   \<and> left_weak_order_succ [1, 1, 2] = Inr [[2, 2, 1]]
   \<and> is_packed [2, 2, 1] \<and> set [2, 2, 1 :: int] = set [1, 1, 2]
   \<and> (\<exists>a. 1 \<le> a \<and> a < pw_max [1, 1, 2]
         \<and> [2, 2, 1] = map (\<lambda>x. if x = a then a + 1 else if x = a + 1 then a else x) [1, 1, 2]
         \<and> count_list [2, 2, 1] a = count_list [1, 1, 2] (a + 1)
         \<and> count_list [2, 2, 1] (a + 1) = count_list [1, 1, 2] a)"
proof -
  have p: "is_packed [1, 2, 1]" "is_packed [1, 1, 2]" by code_simp+
  have s: "right_weak_order_succ [1, 2, 1] = [[2, 1, 1]]" by code_simp
  have l: "left_weak_order_succ [1, 1, 2] = Inr [[2, 2, 1]]" by code_simp
  have r: "is_packed [2, 1, 1] \<and> length [2, 1, 1 :: int] = length [1, 2, 1 :: int]
        \<and> mset [2, 1, 1 :: int] = mset [1, 2, 1]"
    using weak_order_steps_packed[OF p(1)] s by simp
  obtain s' p' where sp: "left_weak_order_succ [1, 1, 2] = Inr s'"
    and al: "\<forall>v \<in> set s' \<union> set p'.
          is_packed v \<and> length v = length [1, 1, 2 :: int] \<and> set v = set [1, 1, 2]
          \<and> (\<exists>a. 1 \<le> a \<and> a < pw_max [1, 1, 2]
                \<and> v = map (\<lambda>x. if x = a then a + 1 else if x = a + 1 then a else x) [1, 1, 2]
                \<and> count_list v a = count_list [1, 1, 2] (a + 1)
                \<and> count_list v (a + 1) = count_list [1, 1, 2] a
                \<and> (\<forall>x. x \<noteq> a \<and> x \<noteq> a + 1
                        \<longrightarrow> count_list v x = count_list [1, 1, 2] x))"
    using weak_order_steps_packed[OF p(2)] by blast
  have "s' = [[2, 2, 1]]" using sp l by simp
  then have "[2, 2, 1] \<in> set s' \<union> set p'" by simp
  with al have "is_packed [2, 2, 1] \<and> set [2, 2, 1 :: int] = set [1, 1, 2]
   \<and> (\<exists>a. 1 \<le> a \<and> a < pw_max [1, 1, 2]
         \<and> [2, 2, 1] = map (\<lambda>x. if x = a then a + 1 else if x = a + 1 then a else x) [1, 1, 2]
         \<and> count_list [2, 2, 1] a = count_list [1, 1, 2] (a + 1)
         \<and> count_list [2, 2, 1] (a + 1) = count_list [1, 1, 2] a)"
    by blast
  with r s l show ?thesis by (intro conjI) blast+
qed

text \<open>
  C9 as stated fails for the left order: the successor of \<open>[1, 1, 2]\<close> is \<open>[2, 2, 1]\<close>,
  which has two letters \<open>2\<close> where \<open>[1, 1, 2]\<close> has one.
\<close>

theorem left_step_changes_multiset:
  "is_packed [1, 1, 2] \<and> left_weak_order_succ [1, 1, 2] = Inr [[2, 2, 1]]
   \<and> mset [2, 2, 1 :: int] \<noteq> mset [1, 1, 2]"
proof -
  have "is_packed [1, 1, 2] \<and> left_weak_order_succ [1, 1, 2] = Inr [[2, 2, 1]]"
    by code_simp
  moreover have "count (mset [2, 2, 1 :: int]) 2 \<noteq> count (mset [1, 1, 2 :: int]) 2"
    by simp
  then have "mset [2, 2, 1 :: int] \<noteq> mset [1, 1, 2]"
    by metis
  ultimately show ?thesis by simp
qed

lemma weak_order_steps_packed_aux:
  assumes "is_packed u" and "left_weak_order_succ u = Inr s" and "left_weak_order_pred u = Inr p"
  shows "\<forall>v \<in> set s \<union> set p. is_packed v"
proof -
  have "is_packed v" if "v = swap_letters i u" "i \<in> set [1 .. pw_max u - 1]" for v i
    using that set_swap_letters[OF assms(1), of i] is_packed_cong_set[OF assms(1), of v] by simp
  then show ?thesis
    using assms(2,3)
    unfolding left_weak_order_succ_packed[OF assms(1)] left_weak_order_pred_packed[OF assms(1)]
    by auto
qed

subsection \<open>Grading by the number of inversions: the right order\<close>

definition inv_pairs :: "int list \<Rightarrow> (nat \<times> nat) set" where
  "inv_pairs w = {(i, j). i < j \<and> j < length w \<and> w ! i > w ! j}"

definition adj :: "nat \<Rightarrow> nat \<Rightarrow> nat" where
  "adj i k = (if k = i then i + 1 else if k = i + 1 then i else k)"

lemma adj_adj [simp]: "adj i (adj i k) = k"
  by (simp add: adj_def)

lemma inversions_right_position:
  "inversions w ''right'' None False = Inr ((\<lambda>(i, j). (int i + 1, int j + 1)) ` inv_pairs w)"
proof (cases "w = []")
  case True
  then show ?thesis by (simp add: inversions_def inv_pairs_def)
next
  case False
  have "set [(int i + 1 - 0, int j + 1 - 0).
              i \<leftarrow> [0 ..< length w - 1], j \<leftarrow> [i + 1 ..< length w], w ! i > w ! j]
        = (\<lambda>(i, j). (int i + 1, int j + 1)) ` inv_pairs w"
    by (auto simp: inv_pairs_def image_iff)
  then show ?thesis using False by (simp add: inversions_def Let_def)
qed

lemma finite_inv_pairs [simp]: "finite (inv_pairs w)"
proof -
  have "inv_pairs w \<subseteq> {..< length w} \<times> {..< length w}"
    by (auto simp: inv_pairs_def)
  then show ?thesis by (rule finite_subset) simp
qed

lemma card_inversions_right:
  "card ((\<lambda>(i, j). (int i + 1, int j + 1)) ` inv_pairs w) = card (inv_pairs w)"
  by (rule card_image) (auto simp: inj_on_def)

lemma nth_swap_adjacent:
  assumes "i + 1 < length w" and "k < length w"
  shows "swap_adjacent i w ! k = w ! adj i k"
proof -
  consider "k < i" | "k = i" | "k = i + 1" | "k > i + 1" by linarith
  then show ?thesis
  proof cases
    case 1
    then show ?thesis using assms by (simp add: swap_adjacent_def adj_def nth_append)
  next
    case 2
    then show ?thesis using assms by (simp add: swap_adjacent_def adj_def nth_append)
  next
    case 3
    then show ?thesis using assms by (simp add: swap_adjacent_def adj_def nth_append)
  next
    case 4
    then obtain d where d: "k = i + 2 + d" by (metis add.commute less_natE add_2_eq_Suc' add_Suc_right Suc_eq_plus1)
    then show ?thesis using assms by (simp add: swap_adjacent_def adj_def nth_append)
  qed
qed

lemma swap_adjacent_involution:
  assumes "i + 1 < length w"
  shows "swap_adjacent i (swap_adjacent i w) = w"
proof (rule nth_equalityI)
  show "length (swap_adjacent i (swap_adjacent i w)) = length w"
    using assms by (simp add: length_swap_adjacent)
next
  fix k assume "k < length (swap_adjacent i (swap_adjacent i w))"
  then have k: "k < length w" using assms by (simp add: length_swap_adjacent)
  then have "adj i k < length w" using assms by (simp add: adj_def)
  then show "swap_adjacent i (swap_adjacent i w) ! k = w ! k"
    using assms k by (simp add: nth_swap_adjacent length_swap_adjacent)
qed

lemma adj_mono:
  assumes "a < b" and "(a, b) \<noteq> (i, i + 1)"
  shows "adj i a < adj i b"
  using assms by (auto simp: adj_def)

lemma inv_pairs_swap_adjacent:
  assumes "i + 1 < length w" and "w ! i < w ! (i + 1)"
  shows "inv_pairs (swap_adjacent i w)
         = insert (i, i + 1) ((\<lambda>(a, b). (adj i a, adj i b)) ` inv_pairs w)"
proof -
  define v where "v = swap_adjacent i w"
  have len: "length v = length w" using assms(1) by (simp add: v_def length_swap_adjacent)
  have nth: "v ! k = w ! adj i k" if "k < length w" for k
    using assms(1) that by (simp add: v_def nth_swap_adjacent)
  have bound: "adj i k < length w" if "k < length w" for k
    using assms(1) that by (simp add: adj_def)
  show ?thesis unfolding v_def[symmetric]
  proof (intro set_eqI iffI)
    fix p assume p: "p \<in> inv_pairs v"
    obtain a b where ab: "p = (a, b)" by (cases p)
    have h: "a < b" "b < length w" "w ! adj i a > w ! adj i b"
      using p ab len nth by (auto simp: inv_pairs_def)
    show "p \<in> insert (i, i + 1) ((\<lambda>(a, b). (adj i a, adj i b)) ` inv_pairs w)"
    proof (cases "(a, b) = (i, i + 1)")
      case True
      then show ?thesis using ab by simp
    next
      case False
      then have "adj i a < adj i b" using h(1) by (rule adj_mono[rotated])
      then have "(adj i a, adj i b) \<in> inv_pairs w"
        using h bound by (simp add: inv_pairs_def)
      then have "(adj i (adj i a), adj i (adj i b))
                 \<in> (\<lambda>(a, b). (adj i a, adj i b)) ` inv_pairs w"
        by (rule rev_image_eqI) simp
      then show ?thesis using ab by simp
    qed
  next
    fix p assume p: "p \<in> insert (i, i + 1) ((\<lambda>(a, b). (adj i a, adj i b)) ` inv_pairs w)"
    show "p \<in> inv_pairs v"
    proof (cases "p = (i, i + 1)")
      case True
      have "v ! i = w ! (i + 1)" "v ! (i + 1) = w ! i"
        using assms(1) nth[of i] nth[of "i + 1"] by (simp_all add: adj_def)
      then show ?thesis using True assms len by (simp add: inv_pairs_def)
    next
      case False
      then obtain a b where ab: "p = (adj i a, adj i b)" "(a, b) \<in> inv_pairs w"
        using p by auto
      then have h: "a < b" "b < length w" "w ! a > w ! b"
        by (simp_all add: inv_pairs_def)
      have "(a, b) \<noteq> (i, i + 1)" using h(3) assms(2) by auto
      then have "adj i a < adj i b" using h(1) by (rule adj_mono[rotated])
      moreover have "v ! adj i a = w ! a" "v ! adj i b = w ! b"
        using nth[of "adj i a"] nth[of "adj i b"] bound h by simp_all
      ultimately show ?thesis
        using ab h bound len by (simp add: inv_pairs_def)
    qed
  qed
qed

lemma card_inv_pairs_swap_adjacent:
  assumes "i + 1 < length w" and "w ! i < w ! (i + 1)"
  shows "card (inv_pairs (swap_adjacent i w)) = card (inv_pairs w) + 1"
proof -
  have inj: "inj_on (\<lambda>(a, b). (adj i a, adj i b)) (inv_pairs w)"
    by (rule inj_on_inverseI[where g = "\<lambda>(a, b). (adj i a, adj i b)"]) auto
  have "(i, i + 1) \<notin> (\<lambda>(a, b). (adj i a, adj i b)) ` inv_pairs w"
  proof
    assume "(i, i + 1) \<in> (\<lambda>(a, b). (adj i a, adj i b)) ` inv_pairs w"
    then obtain q where q: "(i, i + 1) = (\<lambda>(a, b). (adj i a, adj i b)) q" "q \<in> inv_pairs w"
      by (rule imageE)
    obtain a b where ab: "q = (a, b)" by (cases q)
    have "adj i a = i" "adj i b = i + 1" "a < b"
      using q ab by (simp_all add: inv_pairs_def)
    then show False
      by (auto simp: adj_def split: if_splits)
  qed
  then show ?thesis
    unfolding inv_pairs_swap_adjacent[OF assms] using inj by (simp add: card_image)
qed

subsection \<open>First and last occurrences\<close>

lemma index_of_less: "x \<in> set w \<Longrightarrow> index_of w x < length w"
  by (induction w) (auto simp: index_of_def)

lemma nth_index_of: "x \<in> set w \<Longrightarrow> w ! index_of w x = x"
  using nth_length_takeWhile[of "\<lambda>y. y \<noteq> x" w] index_of_less[of x w]
  by (simp add: index_of_def)

lemma index_of_le:
  assumes "j < length w" and "w ! j = x"
  shows "index_of w x \<le> j"
proof (rule ccontr)
  assume "\<not> index_of w x \<le> j"
  then have j: "j < length (takeWhile (\<lambda>y. y \<noteq> x) w)" by (simp add: index_of_def)
  then have "takeWhile (\<lambda>y. y \<noteq> x) w ! j = w ! j" by (rule takeWhile_nth)
  moreover have "takeWhile (\<lambda>y. y \<noteq> x) w ! j \<in> set (takeWhile (\<lambda>y. y \<noteq> x) w)"
    using j by simp
  ultimately show False using assms(2) by (auto dest: set_takeWhileD)
qed

lemma index_of_before: "j < index_of w x \<Longrightarrow> w ! j \<noteq> x"
  by (metis index_of_def linorder_not_less index_of_le length_takeWhile_le order_less_le_trans)

text \<open>The last occurrence of a letter, as the weak orders compute it.\<close>

definition last_index :: "int list \<Rightarrow> int \<Rightarrow> int" where
  "last_index w x = int (length w) - 1 - int (index_of (rev w) x)"

lemma last_index_bounds:
  assumes "x \<in> set w"
  shows "0 \<le> last_index w x" and "last_index w x < int (length w)"
    and "w ! nat (last_index w x) = x"
proof -
  have lt: "index_of (rev w) x < length w"
    using index_of_less[of x "rev w"] assms by simp
  then show "0 \<le> last_index w x" "last_index w x < int (length w)"
    by (simp_all add: last_index_def)
  have "nat (last_index w x) = length w - 1 - index_of (rev w) x"
    using lt by (simp add: last_index_def)
  moreover have "rev w ! index_of (rev w) x = x"
    using nth_index_of[of x "rev w"] assms by simp
  ultimately show "w ! nat (last_index w x) = x"
    using lt by (simp add: rev_nth)
qed

lemma last_index_ge:
  assumes "j < length w" and "w ! j = x"
  shows "int j \<le> last_index w x"
proof -
  have "rev w ! (length w - 1 - j) = x"
    using assms by (simp add: rev_nth)
  then have "index_of (rev w) x \<le> length w - 1 - j"
    using assms(1) by (intro index_of_le) simp_all
  then show ?thesis using assms(1) by (simp add: last_index_def)
qed

lemma first_le_last:
  assumes "x \<in> set w"
  shows "int (index_of w x) \<le> last_index w x"
  using last_index_ge[OF index_of_less[OF assms] nth_index_of[OF assms]] .

subsection \<open>Grading by the number of inversions: the left order\<close>

definition linv :: "int list \<Rightarrow> (int \<times> int) set" where
  "linv w = {(j, i). 1 \<le> i \<and> i < j \<and> j \<le> pw_max w \<and> int (index_of w i) > last_index w j}"

definition sw :: "int \<Rightarrow> int \<Rightarrow> int" where
  "sw a x = (if x = a then a + 1 else if x = a + 1 then a else x)"

lemma sw_sw [simp]: "sw a (sw a x) = x"
  by (simp add: sw_def)

lemma swap_letters_map: "swap_letters a w = map (sw a) w"
  by (simp add: swap_letters_def sw_def)

lemma inversions_left_value:
  assumes "is_packed w"
  shows "inversions w ''left'' None False = Inr (linv w)"
proof (cases "w = []")
  case True
  then show ?thesis by (simp add: inversions_def linv_def pw_max_def)
next
  case False
  have "set [(j, i). i \<leftarrow> [1 .. pw_max w - 1], j \<leftarrow> [i + 1 .. pw_max w],
              int (index_of w i) > int (length w) - int (index_of (rev w) j) - 1]
        = linv w"
    by (auto simp: linv_def last_index_def)
  then show ?thesis
    using False is_packed_all_letters[OF assms] by (simp add: inversions_def Let_def)
qed

lemma finite_linv [simp]: "finite (linv w)"
proof -
  have "linv w \<subseteq> {1 .. pw_max w} \<times> {1 .. pw_max w}"
    by (auto simp: linv_def)
  then show ?thesis by (rule finite_subset) simp
qed

lemma index_of_swap_letters: "index_of (swap_letters a w) x = index_of w (sw a x)"
proof -
  have "(\<lambda>y. y \<noteq> x) \<circ> sw a = (\<lambda>y. y \<noteq> sw a x)"
    by (auto simp: fun_eq_iff sw_def)
  then show ?thesis
    by (simp add: index_of_def swap_letters_map takeWhile_map)
qed

lemma last_index_swap_letters: "last_index (swap_letters a w) x = last_index w (sw a x)"
proof -
  have "rev (swap_letters a w) = swap_letters a (rev w)"
    by (simp add: swap_letters_map rev_map)
  then show ?thesis
    by (simp add: last_index_def index_of_swap_letters)
qed

lemma pw_max_swap_letters:
  assumes "is_packed w" and "1 \<le> a" and "a < pw_max w"
  shows "pw_max (swap_letters a w) = pw_max w"
proof -
  have "set (swap_letters a w) = set w" using assms by (rule set_swap_letters)
  moreover from this have "swap_letters a w = [] \<longleftrightarrow> w = []" by (metis set_empty)
  ultimately show ?thesis by (simp add: pw_max_def)
qed

lemma sw_mono:
  assumes "i < j" and "(i, j) \<noteq> (a, a + 1)"
  shows "sw a i < sw a j"
  using assms by (auto simp: sw_def)

lemma sw_range:
  assumes "1 \<le> a" and "a < m" and "1 \<le> x" and "x \<le> m"
  shows "1 \<le> sw a x" and "sw a x \<le> m"
  using assms by (auto simp: sw_def)

lemma linv_swap_letters:
  assumes "is_packed w" and "1 \<le> a" and "a < pw_max w"
    and "last_index w a < int (index_of w (a + 1))"
  shows "linv (swap_letters a w)
         = insert (a + 1, a) ((\<lambda>(j, i). (sw a j, sw a i)) ` linv w)"
proof -
  define v where "v = swap_letters a w"
  have mx: "pw_max v = pw_max w" unfolding v_def using assms(1-3) by (rule pw_max_swap_letters)
  have mem: "a \<in> set w" "a + 1 \<in> set w"
    using assms(1-3) by (simp_all add: is_packed_letters)
  have not_in: "\<not> int (index_of w a) > last_index w (a + 1)"
    using first_le_last[OF mem(1)] first_le_last[OF mem(2)] assms(4) by linarith
  have in_v: "(j, i) \<in> linv v \<longleftrightarrow>
      1 \<le> i \<and> i < j \<and> j \<le> pw_max w \<and> int (index_of w (sw a i)) > last_index w (sw a j)"
    for i j
    using mx by (simp add: linv_def v_def index_of_swap_letters last_index_swap_letters)
  show ?thesis unfolding v_def[symmetric]
  proof (intro set_eqI iffI)
    fix p assume p: "p \<in> linv v"
    obtain j i where ji: "p = (j, i)" by (cases p)
    have h: "1 \<le> i" "i < j" "j \<le> pw_max w" "int (index_of w (sw a i)) > last_index w (sw a j)"
      using p ji in_v by auto
    show "p \<in> insert (a + 1, a) ((\<lambda>(j, i). (sw a j, sw a i)) ` linv w)"
    proof (cases "(i, j) = (a, a + 1)")
      case True
      then show ?thesis using ji by simp
    next
      case False
      then have "sw a i < sw a j" using h(2) by (rule sw_mono[rotated])
      moreover have "1 \<le> sw a i" "sw a j \<le> pw_max w"
        using sw_range[OF assms(2,3)] h by auto
      ultimately have "(sw a j, sw a i) \<in> linv w"
        using h(4) by (simp add: linv_def)
      then have "(sw a (sw a j), sw a (sw a i)) \<in> (\<lambda>(j, i). (sw a j, sw a i)) ` linv w"
        by (rule rev_image_eqI) simp
      then show ?thesis using ji by simp
    qed
  next
    fix p assume p: "p \<in> insert (a + 1, a) ((\<lambda>(j, i). (sw a j, sw a i)) ` linv w)"
    show "p \<in> linv v"
    proof (cases "p = (a + 1, a)")
      case True
      have "sw a a = a + 1" "sw a (a + 1) = a" by (simp_all add: sw_def)
      then show ?thesis using True assms(2-4) in_v[of "a + 1" a] by simp
    next
      case False
      then obtain q where q: "p = (\<lambda>(j, i). (sw a j, sw a i)) q" "q \<in> linv w"
        using p by blast
      obtain j i where ji: "q = (j, i)" by (cases q)
      have h: "1 \<le> i" "i < j" "j \<le> pw_max w" "int (index_of w i) > last_index w j"
        using q(2) ji by (simp_all add: linv_def)
      have "(i, j) \<noteq> (a, a + 1)" using h(4) not_in by auto
      then have "sw a i < sw a j" using h(2) by (rule sw_mono[rotated])
      moreover have "1 \<le> sw a i" "sw a j \<le> pw_max w"
        using sw_range[OF assms(2,3)] h by auto
      ultimately have "(sw a j, sw a i) \<in> linv v"
        using h(4) in_v[of "sw a j" "sw a i"] by simp
      then show ?thesis using q(1) ji by simp
    qed
  qed
qed

lemma card_linv_swap_letters:
  assumes "is_packed w" and "1 \<le> a" and "a < pw_max w"
    and "last_index w a < int (index_of w (a + 1))"
  shows "card (linv (swap_letters a w)) = card (linv w) + 1"
proof -
  have inj: "inj_on (\<lambda>(j, i). (sw a j, sw a i)) (linv w)"
    by (rule inj_on_inverseI[where g = "\<lambda>(j, i). (sw a j, sw a i)"]) auto
  have "(a + 1, a) \<notin> (\<lambda>(j, i). (sw a j, sw a i)) ` linv w"
  proof
    assume "(a + 1, a) \<in> (\<lambda>(j, i). (sw a j, sw a i)) ` linv w"
    then obtain q where q: "(a + 1, a) = (\<lambda>(j, i). (sw a j, sw a i)) q" "q \<in> linv w"
      by (rule imageE)
    obtain j i where ji: "q = (j, i)" by (cases q)
    have "sw a j = a + 1" "sw a i = a" "i < j"
      using q ji by (simp_all add: linv_def)
    then show False
      by (auto simp: sw_def split: if_splits)
  qed
  then show ?thesis
    unfolding linv_swap_letters[OF assms] using inj by (simp add: card_image)
qed

lemma swap_letters_involution [simp]: "swap_letters a (swap_letters a w) = w"
  by (simp add: swap_letters_map map_idI)

text \<open>\<open>len(x.inversions(side=side))\<close>, with the default support.\<close>

definition inversion_count :: "int list \<Rightarrow> string \<Rightarrow> error + nat" where
  "inversion_count w side =
     (case inversions w side None False of Inl e \<Rightarrow> Inl e | Inr s \<Rightarrow> Inr (card s))"

lemma inversion_count_right: "inversion_count w ''right'' = Inr (card (inv_pairs w))"
  by (simp add: inversion_count_def inversions_right_position card_inversions_right)

lemma inversion_count_left:
  "is_packed w \<Longrightarrow> inversion_count w ''left'' = Inr (card (linv w))"
  by (simp add: inversion_count_def inversions_left_value)

lemma left_weak_order_succ_iff:
  assumes "is_packed u"
  shows "left_weak_order_succ u = Inr s \<Longrightarrow> v \<in> set s \<Longrightarrow>
    \<exists>a. 1 \<le> a \<and> a < pw_max u \<and> last_index u a < int (index_of u (a + 1))
        \<and> v = swap_letters a u"
  unfolding left_weak_order_succ_packed[OF assms] by (fastforce simp: last_index_def)

lemma left_weak_order_pred_iff:
  assumes "is_packed u"
  shows "left_weak_order_pred u = Inr p \<Longrightarrow> v \<in> set p \<Longrightarrow>
    \<exists>a. 1 \<le> a \<and> a < pw_max u \<and> int (index_of u a) > last_index u (a + 1)
        \<and> v = swap_letters a u"
  unfolding left_weak_order_pred_packed[OF assms] by (fastforce simp: last_index_def)

lemma right_succ_count:
  assumes "v \<in> set (right_weak_order_succ u)"
  shows "card (inv_pairs v) = card (inv_pairs u) + 1"
  using assms by (auto simp: right_weak_order_succ_iff card_inv_pairs_swap_adjacent)

lemma right_pred_count:
  assumes "v \<in> set (right_weak_order_pred u)"
  shows "card (inv_pairs u) = card (inv_pairs v) + 1"
proof -
  obtain i where i: "i + 1 < length u" "u ! i > u ! (i + 1)" "v = swap_adjacent i u"
    using assms by (auto simp: right_weak_order_pred_iff)
  have len: "i + 1 < length v" using i by (simp add: length_swap_adjacent)
  have "v ! i = u ! (i + 1)" "v ! (i + 1) = u ! i"
    using i by (simp_all add: nth_swap_adjacent adj_def)
  then have "v ! i < v ! (i + 1)" using i(2) by simp
  then have "card (inv_pairs (swap_adjacent i v)) = card (inv_pairs v) + 1"
    using len by (rule card_inv_pairs_swap_adjacent[rotated])
  then show ?thesis using i by (simp add: swap_adjacent_involution)
qed

lemma left_succ_count:
  assumes "is_packed u" and "left_weak_order_succ u = Inr s" and "v \<in> set s"
  shows "card (linv v) = card (linv u) + 1"
  using left_weak_order_succ_iff[OF assms] card_linv_swap_letters[OF assms(1)] by auto

lemma left_pred_count:
  assumes "is_packed u" and "left_weak_order_pred u = Inr p" and "v \<in> set p"
  shows "card (linv u) = card (linv v) + 1"
proof -
  obtain a where a: "1 \<le> a" "a < pw_max u" "int (index_of u a) > last_index u (a + 1)"
      "v = swap_letters a u"
    using left_weak_order_pred_iff[OF assms] by auto
  have pv: "is_packed v"
    using is_packed_cong_set[OF assms(1)] set_swap_letters[OF assms(1) a(1,2)] a(4) by simp
  have mv: "a < pw_max v" using pw_max_swap_letters[OF assms(1) a(1,2)] a by simp
  have "sw a a = a + 1" "sw a (a + 1) = a" by (simp_all add: sw_def)
  then have "last_index v a < int (index_of v (a + 1))"
    using a by (simp add: last_index_swap_letters index_of_swap_letters)
  then have "card (linv (swap_letters a v)) = card (linv v) + 1"
    using pv a(1) mv by (intro card_linv_swap_letters)
  then show ?thesis using a(4) by simp
qed

text \<open>
  C4.  For a packed word \<open>u\<close>: every word of \<open>right_weak_order_succ(u)\<close> has one right
  inversion on positions more than \<open>u\<close>, every word of \<open>left_weak_order_succ(u)\<close> has
  one left inversion on values more, and every word of the \<open>pred\<close> lists has one fewer.
\<close>

theorem inversion_count_graded:
  assumes "is_packed u"
  shows "\<exists>nr nl s p.
      inversion_count u ''right'' = Inr nr \<and> inversion_count u ''left'' = Inr nl
    \<and> left_weak_order_succ u = Inr s \<and> left_weak_order_pred u = Inr p
    \<and> (\<forall>v \<in> set (right_weak_order_succ u). inversion_count v ''right'' = Inr (nr + 1))
    \<and> (\<forall>v \<in> set (right_weak_order_pred u).
          0 < nr \<and> inversion_count v ''right'' = Inr (nr - 1))
    \<and> (\<forall>v \<in> set s. inversion_count v ''left'' = Inr (nl + 1))
    \<and> (\<forall>v \<in> set p. 0 < nl \<and> inversion_count v ''left'' = Inr (nl - 1))"
proof -
  obtain s p where sp: "left_weak_order_succ u = Inr s" "left_weak_order_pred u = Inr p"
    using left_weak_order_succ_packed[OF assms] left_weak_order_pred_packed[OF assms] by blast
  have packed: "is_packed v" if "v \<in> set s \<union> set p" for v
    using weak_order_steps_packed_aux[OF assms sp] that by blast
  have 1: "inversion_count v ''right'' = Inr (card (inv_pairs u) + 1)"
    if "v \<in> set (right_weak_order_succ u)" for v
    using right_succ_count[OF that] by (simp add: inversion_count_right)
  have 2: "0 < card (inv_pairs u) \<and> inversion_count v ''right'' = Inr (card (inv_pairs u) - 1)"
    if "v \<in> set (right_weak_order_pred u)" for v
    using right_pred_count[OF that] by (simp add: inversion_count_right)
  have 3: "inversion_count v ''left'' = Inr (card (linv u) + 1)" if "v \<in> set s" for v
    using left_succ_count[OF assms sp(1) that] packed[of v] that
    by (simp add: inversion_count_left)
  have 4: "0 < card (linv u) \<and> inversion_count v ''left'' = Inr (card (linv u) - 1)"
    if "v \<in> set p" for v
    using left_pred_count[OF assms sp(2) that] packed[of v] that
    by (simp add: inversion_count_left)
  show ?thesis
    using sp 1 2 3 4 inversion_count_right[of u] inversion_count_left[OF assms] by blast
qed

theorem inversion_count_graded_witness:
  "inversion_count [3, 1, 2] ''right'' = Inr 2
   \<and> right_weak_order_succ [3, 1, 2] = [[3, 2, 1]]
   \<and> inversion_count [3, 2, 1] ''right'' = Inr 3
   \<and> right_weak_order_pred [3, 1, 2] = [[1, 3, 2]]
   \<and> inversion_count [1, 3, 2] ''right'' = Inr 1
   \<and> inversion_count [3, 1, 2] ''left'' = Inr 2
   \<and> left_weak_order_succ [3, 1, 2] = Inr [[3, 2, 1]]
   \<and> inversion_count [3, 2, 1] ''left'' = Inr 3
   \<and> left_weak_order_pred [3, 1, 2] = Inr [[2, 1, 3]]
   \<and> inversion_count [2, 1, 3] ''left'' = Inr 1"
proof -
  have p: "is_packed [3, 1, 2]" by code_simp
  have e: "inversion_count [3, 1, 2] ''right'' = Inr 2"
    "inversion_count [3, 1, 2] ''left'' = Inr 2"
    "right_weak_order_succ [3, 1, 2] = [[3, 2, 1]]"
    "right_weak_order_pred [3, 1, 2] = [[1, 3, 2]]"
    "left_weak_order_succ [3, 1, 2] = Inr [[3, 2, 1]]"
    "left_weak_order_pred [3, 1, 2] = Inr [[2, 1, 3]]"
    by code_simp+
  from inversion_count_graded[OF p] e show ?thesis by (auto simp: numeral_3_eq_3)
qed

subsection \<open>Comparison in the left order\<close>

text \<open>The block of the positions (from 1) that carry the letter \<open>x\<close>.\<close>

definition block :: "int list \<Rightarrow> int \<Rightarrow> nat set" where
  "block w x = {p + 1 | p. p < length w \<and> w ! p = x}"

lemma py_index_valid:
  assumes "1 \<le> v" and "v \<le> int n"
  shows "py_index n (v - 1) = Inr (nat (v - 1))" and "nat (v - 1) < n"
  using assms by (simp_all add: py_index_def)

lemma osp_loop_blocks:
  assumes "\<forall>v \<in> set vs. 1 \<le> v \<and> v \<le> int (length lst)"
  shows "\<exists>r. osp_loop lst i vs = Inr r \<and> length r = length lst
          \<and> (\<forall>k < length lst. set (r ! k)
                = set (lst ! k) \<union> {i + p + 1 | p. p < length vs \<and> vs ! p = int k + 1})"
  using assms
proof (induction vs arbitrary: lst i)
  case Nil
  then show ?case by simp
next
  case (Cons v vs)
  define k0 where "k0 = nat (v - 1)"
  define lst' where "lst' = lst[k0 := lst ! k0 @ [i + 1]]"
  have v: "1 \<le> v" "v \<le> int (length lst)" using Cons.prems by simp_all
  have k0: "py_index (length lst) (v - 1) = Inr k0" "k0 < length lst" "int k0 + 1 = v"
    using py_index_valid[OF v] v by (simp_all add: k0_def)
  have "\<forall>x \<in> set vs. 1 \<le> x \<and> x \<le> int (length lst')"
    using Cons.prems by (simp add: lst'_def)
  from Cons.IH[OF this, of "i + 1"] obtain r where r:
    "osp_loop lst' (i + 1) vs = Inr r" "length r = length lst'"
    "\<forall>k < length lst'. set (r ! k)
        = set (lst' ! k) \<union> {i + 1 + p + 1 | p. p < length vs \<and> vs ! p = int k + 1}"
    by blast
  have step: "osp_loop lst i (v # vs) = Inr r"
    using k0(1) r(1) by (simp add: lst'_def)
  have "set (r ! k) = set (lst ! k) \<union> {i + p + 1 | p. p < length (v # vs) \<and> (v # vs) ! p = int k + 1}"
    if k: "k < length lst" for k
  proof -
    have a: "set (r ! k) = set (lst' ! k) \<union> {i + 1 + p + 1 | p. p < length vs \<and> vs ! p = int k + 1}"
      using r(3) k by (simp add: lst'_def)
    have b: "set (lst' ! k) = set (lst ! k) \<union> (if k = k0 then {i + 1} else {})"
      using k by (simp add: lst'_def nth_list_update)
    have c: "{i + p + 1 | p. p < length (v # vs) \<and> (v # vs) ! p = int k + 1}
          = (if k = k0 then {i + 1} else {})
            \<union> {i + 1 + p + 1 | p. p < length vs \<and> vs ! p = int k + 1}"
    proof (intro set_eqI iffI)
      fix x assume "x \<in> {i + p + 1 | p. p < length (v # vs) \<and> (v # vs) ! p = int k + 1}"
      then obtain p where p: "x = i + p + 1" "p < length (v # vs)" "(v # vs) ! p = int k + 1"
        by blast
      show "x \<in> (if k = k0 then {i + 1} else {})
            \<union> {i + 1 + p + 1 | p. p < length vs \<and> vs ! p = int k + 1}"
      proof (cases p)
        case 0
        then show ?thesis using p k0(3) by auto
      next
        case (Suc q)
        then have "x = i + 1 + q + 1" "q < length vs" "vs ! q = int k + 1" using p by simp_all
        then show ?thesis by blast
      qed
    next
      fix x assume x: "x \<in> (if k = k0 then {i + 1} else {})
            \<union> {i + 1 + p + 1 | p. p < length vs \<and> vs ! p = int k + 1}"
      show "x \<in> {i + p + 1 | p. p < length (v # vs) \<and> (v # vs) ! p = int k + 1}"
      proof (cases "k = k0 \<and> x = i + 1")
        case True
        then have "x = i + 0 + 1 \<and> 0 < length (v # vs) \<and> (v # vs) ! 0 = int k + 1"
          using k0(3) by simp
        then show ?thesis by blast
      next
        case False
        then obtain q where "x = i + 1 + q + 1" "q < length vs" "vs ! q = int k + 1"
          using x by (auto split: if_splits)
        then have "x = i + Suc q + 1 \<and> Suc q < length (v # vs) \<and> (v # vs) ! Suc q = int k + 1"
          by simp
        then show ?thesis by blast
      qed
    qed
    show ?thesis unfolding a b c by blast
  qed
  then show ?case using step r(2) by (simp add: lst'_def)
qed

lemma to_ordered_set_partition_packed:
  assumes "is_packed w"
  shows "\<exists>r. to_ordered_set_partition w = Inr r \<and> set (map set r) = block w ` set w"
proof -
  define m where "m = nat (pw_max w)"
  have m: "int m = pw_max w"
    using assms by (cases "w = []") (auto simp: m_def pw_max_def dest: is_packed_nonempty_Max(2))
  have "\<forall>v \<in> set w. 1 \<le> v \<and> v \<le> int (length (replicate m ([] :: nat list)))"
    using assms m by (simp add: is_packed_letters)
  from osp_loop_blocks[OF this, of 0] obtain r where r:
    "osp_loop (replicate m []) 0 w = Inr r" "length r = m"
    "\<forall>k < m. set (r ! k) = {p + 1 | p. p < length w \<and> w ! p = int k + 1}"
    by auto
  have blk: "set (r ! k) = block w (int k + 1)" if "k < m" for k
    using r(3) that by (simp add: block_def)
  have "set (map set r) = block w ` set w"
  proof (intro set_eqI iffI)
    fix b assume "b \<in> set (map set r)"
    then obtain k where k: "k < m" "b = set (r ! k)"
      using r(2) by (auto simp: in_set_conv_nth)
    then have "int k + 1 \<in> set w" using assms m by (simp add: is_packed_letters)
    then show "b \<in> block w ` set w" using k blk by blast
  next
    fix b assume "b \<in> block w ` set w"
    then obtain x where x: "x \<in> set w" "b = block w x" by blast
    then have "1 \<le> x" "x \<le> int m" using assms m by (simp_all add: is_packed_letters)
    then have "nat (x - 1) < m" "int (nat (x - 1)) + 1 = x" by simp_all
    then have "b = set (r ! nat (x - 1))" "nat (x - 1) < length r"
      using blk[of "nat (x - 1)"] x(2) r(2) by simp_all
    then show "b \<in> set (map set r)" by (metis length_map nth_map nth_mem)
  qed
  then show ?thesis using r(1) by (auto simp: to_ordered_set_partition_def m_def)
qed

lemma block_mem: "p < length w \<Longrightarrow> (q + 1 \<in> block w (w ! p)) = (q < length w \<and> w ! q = w ! p)"
  by (auto simp: block_def)

lemma card_from_one: "card {1 .. n :: nat} = n"
  by simp

lemma Union_blocks: "\<Union> (block w ` set w) = {1 .. length w}"
proof (intro set_eqI iffI)
  fix x assume "x \<in> \<Union> (block w ` set w)"
  then show "x \<in> {1 .. length w}" by (auto simp: block_def)
next
  fix x assume "x \<in> {1 .. length w}"
  then have "x = (x - 1) + 1" "x - 1 < length w" by auto
  then obtain p where p: "x = p + 1" "p < length w" by blast
  then have "x \<in> block w (w ! p)" by (auto simp: block_def)
  then show "x \<in> \<Union> (block w ` set w)" using p(2) by auto
qed

lemma same_blocks_iff:
  "block u ` set u = block v ` set v
   \<longleftrightarrow> length u = length v \<and> (\<forall>i < length u. \<forall>j < length u. (u ! i = u ! j) = (v ! i = v ! j))"
proof
  assume eq: "block u ` set u = block v ` set v"
  then have "{1 .. length u} = {1 .. length v}" by (metis Union_blocks)
  then have "card {1 .. length u} = card {1 .. length v}" by (rule arg_cong)
  then have len: "length u = length v" by (simp only: card_from_one)
  have dir: "v' ! i = v' ! j"
    if h: "block u' ` set u' = block v' ` set v'" "length u' = length v'" "i < length u'"
      "j < length u'" "u' ! i = u' ! j" for u' v' :: "int list" and i j
  proof -
    have "block u' (u' ! i) \<in> block u' ` set u'" using h(3) by simp
    then have "block u' (u' ! i) \<in> block v' ` set v'" unfolding h(1) .
    then obtain y where y: "block u' (u' ! i) = block v' y" by blast
    have "i + 1 \<in> block u' (u' ! i)" "j + 1 \<in> block u' (u' ! i)"
      using h(3,4,5) by (auto simp: block_def)
    then have "v' ! i = y" "v' ! j = y" unfolding y by (auto simp: block_def)
    then show ?thesis by simp
  qed
  have "(u ! i = u ! j) = (v ! i = v ! j)" if "i < length u" "j < length u" for i j
    using dir[OF eq len that] dir[OF eq[symmetric] len[symmetric], of i j] that len by auto
  then show "length u = length v \<and> (\<forall>i < length u. \<forall>j < length u. (u ! i = u ! j) = (v ! i = v ! j))"
    using len by blast
next
  assume h: "length u = length v \<and> (\<forall>i < length u. \<forall>j < length u. (u ! i = u ! j) = (v ! i = v ! j))"
  have b: "block u (u ! i) = block v (v ! i)" if "i < length u" for i
  proof -
    have "(p < length u \<and> u ! p = u ! i) = (p < length v \<and> v ! p = v ! i)" for p
      using h that by (cases "p < length u") auto
    then show ?thesis unfolding block_def by simp
  qed
  have nth_set: "set x = (\<lambda>i. x ! i) ` {..< length x}" for x :: "int list"
    by (auto simp: in_set_conv_nth)
  have blocks_nth: "block x ` set x = (\<lambda>i. block x (x ! i)) ` {..< length x}" for x
    by (subst nth_set) (simp add: image_image)
  have "block u ` set u = (\<lambda>i. block u (u ! i)) ` {..< length u}"
    by (rule blocks_nth)
  also have "\<dots> = (\<lambda>i. block v (v ! i)) ` {..< length u}"
    using b by (intro image_cong) auto
  also have "\<dots> = (\<lambda>i. block v (v ! i)) ` {..< length v}"
    using h by simp
  also have "\<dots> = block v ` set v"
    by (rule blocks_nth[symmetric])
  finally show "block u ` set u = block v ` set v" .
qed

lemma inversions_right_subset:
  "(\<lambda>(i, j). (int i + 1, int j + 1)) ` inv_pairs v \<subseteq> (\<lambda>(i, j). (int i + 1, int j + 1)) ` inv_pairs u
   \<longleftrightarrow> inv_pairs v \<subseteq> inv_pairs u"
  by (rule inj_image_subset_iff) (auto simp: inj_on_def)

lemma is_gequal_left_blocks:
  assumes "is_packed u" and "is_packed v"
  shows "is_gequal u v ''left''
         = Inr (block u ` set u = block v ` set v \<and> inv_pairs v \<subseteq> inv_pairs u)"
proof -
  obtain o1 where o1: "to_ordered_set_partition u = Inr o1" "set (map set o1) = block u ` set u"
    using to_ordered_set_partition_packed[OF assms(1)] by blast
  obtain o2 where o2: "to_ordered_set_partition v = Inr o2" "set (map set o2) = block v ` set v"
    using to_ordered_set_partition_packed[OF assms(2)] by blast
  show ?thesis
    using o1(2) o2(2)
    by (simp add: is_gequal_def ebind_def o1(1) o2(1) inversions_right_position
        inversions_right_subset del: set_map)
qed

text \<open>
  C7, as amended.  For packed words \<open>u\<close> and \<open>v\<close>, \<open>is_gequal(u, v, side="left")\<close> returns
  (it never raises) and is true exactly when \<open>u\<close> and \<open>v\<close> have the same size, equal
  letters at the same pairs of positions (the same blocks, whatever their order) and every
  right inversion on positions of \<open>v\<close> is one of \<open>u\<close>.
\<close>

theorem is_gequal_left:
  assumes "is_packed u" and "is_packed v"
  shows "is_gequal u v ''left''
         = Inr (length u = length v
                \<and> (\<forall>i < length u. \<forall>j < length u. (u ! i = u ! j) = (v ! i = v ! j))
                \<and> (\<forall>i j. i < j \<and> j < length v \<and> v ! i > v ! j \<longrightarrow> u ! i > u ! j))"
proof -
  have "inv_pairs v \<subseteq> inv_pairs u
        \<longleftrightarrow> (\<forall>i j. i < j \<and> j < length v \<and> v ! i > v ! j \<longrightarrow> u ! i > u ! j)"
    if "length u = length v"
    using that by (auto simp: inv_pairs_def)
  then show ?thesis
    unfolding is_gequal_left_blocks[OF assms] same_blocks_iff by auto
qed

theorem is_gequal_left_witness:
  "is_gequal [3, 2, 2, 1] [3, 1, 1, 2] ''left'' = Inr True
   \<and> is_gequal [1, 2, 1] [2, 1, 2] ''left'' = Inr False
   \<and> is_gequal [1] [1, 1] ''left'' = Inr False"
proof -
  have p: "is_packed [3, 2, 2, 1]" "is_packed [3, 1, 1, 2]" "is_packed [1, 2, 1]"
    "is_packed [2, 1, 2]" "is_packed [1]" "is_packed [1, 1]"
    by code_simp+
  have e: "is_gequal [3, 2, 2, 1] [3, 1, 1, 2] ''left'' = Inr True"
    "is_gequal [1, 2, 1] [2, 1, 2] ''left'' = Inr False"
    by code_simp+
  show ?thesis
    using is_gequal_left[OF p(5,6)] e by simp
qed

text \<open>
  C7 as stated fails: \<open>[2, 1]\<close> and \<open>[1, 2]\<close> induce different ordered set partitions,
  and \<open>is_gequal([2, 1], [1, 2], side="left")\<close> is true.
\<close>

theorem is_gequal_left_ignores_block_order:
  "is_packed [2, 1] \<and> is_packed [1, 2]
   \<and> to_ordered_set_partition [2, 1] = Inr [[2], [1]]
   \<and> to_ordered_set_partition [1, 2] = Inr [[1], [2]]
   \<and> is_gequal [2, 1] [1, 2] ''left'' = Inr True"
  by code_simp

section \<open>Global descents as cut points\<close>

text \<open>
  A cut point of \<open>w\<close> is a position \<open>d\<close> such that every letter before \<open>d\<close> exceeds every
  letter from \<open>d\<close> on; \<open>0\<close> and \<open>length w\<close> are cut points.
\<close>

definition cutp :: "int list \<Rightarrow> nat \<Rightarrow> bool" where
  "cutp w d \<longleftrightarrow> d \<le> length w \<and> (\<forall>x \<in> set (take d w). \<forall>y \<in> set (drop d w). y < x)"

lemma cutp_0 [simp]: "cutp w 0"
  by (simp add: cutp_def)

lemma cutp_length [simp]: "cutp w (length w)"
  by (simp add: cutp_def)

definition gd_test :: "int list \<Rightarrow> nat \<Rightarrow> bool" where
  "gd_test w d \<longleftrightarrow> Min (insert (pw_max w) (set (take d w))) > Max (set (drop d w @ [0]))"

lemma foldl_gd_step:
  assumes "k < length w"
  shows "foldl (gd_step w) (pw_max w, []) [0 ..< k]
         = (Min (insert (pw_max w) (set (take k w))), filter (gd_test w) [1 ..< Suc k])"
  using assms
proof (induction k)
  case 0
  then show ?case by simp
next
  case (Suc k)
  have t: "take (Suc k) w = take k w @ [w ! k]"
    using Suc.prems by (simp add: take_Suc_conv_app_nth)
  have m: "Min (insert (pw_max w) (set (take (Suc k) w)))
           = min (Min (insert (pw_max w) (set (take k w)))) (w ! k)"
  proof -
    have "insert (pw_max w) (set (take (Suc k) w))
          = insert (w ! k) (insert (pw_max w) (set (take k w)))"
      unfolding t by auto
    then show ?thesis by (simp add: min.commute)
  qed
  have "foldl (gd_step w) (pw_max w, []) [0 ..< Suc k]
        = gd_step w (Min (insert (pw_max w) (set (take k w))), filter (gd_test w) [1 ..< Suc k]) k"
    using Suc by simp
  also have "\<dots> = (Min (insert (pw_max w) (set (take (Suc k) w))),
                    filter (gd_test w) [1 ..< Suc (Suc k)])"
    by (simp add: gd_step_def Let_def m gd_test_def)
  finally show ?case .
qed

lemma global_descents_filter:
  "global_descents w final_descent
   = filter (gd_test w) [1 ..< length w] @ (if final_descent then [length w] else [])"
proof (cases "w = []")
  case True
  then show ?thesis by (simp add: global_descents_def)
next
  case False
  then have "length w - 1 < length w" by simp
  from foldl_gd_step[OF this] False show ?thesis
    by (simp add: global_descents_def Let_def)
qed

lemma gd_test_cutp:
  assumes "is_packed w" and "1 \<le> d" and "d < length w"
  shows "gd_test w d \<longleftrightarrow> cutp w d"
proof -
  have ne: "w \<noteq> []" using assms by auto
  have pos: "\<forall>x \<in> set w. 1 \<le> x" using assms(1) by (simp add: is_packed_letters)
  have lne: "take d w \<noteq> []" "drop d w \<noteq> []" using assms(2,3) by auto
  then have tne: "set (take d w) \<noteq> {}" "set (drop d w) \<noteq> {}" by simp_all
  have sub: "set (take d w) \<subseteq> set w" "set (drop d w) \<subseteq> set w"
    by (auto dest: in_set_takeD in_set_dropD)
  have "Min (insert (pw_max w) (set (take d w))) = Min (set (take d w))"
  proof -
    have "Min (set (take d w)) \<le> pw_max w"
    proof -
      obtain x where x: "x \<in> set (take d w)" using hd_in_set[OF lne(1)] by blast
      then have "Min (set (take d w)) \<le> x" by simp
      moreover have "x \<le> pw_max w" using x sub ne by (auto simp: pw_max_def)
      ultimately show ?thesis by simp
    qed
    moreover have "Min (insert (pw_max w) (set (take d w)))
                   = min (pw_max w) (Min (set (take d w)))"
      using tne(1) by (intro Min_insert) simp_all
    ultimately show ?thesis by (metis min.absorb2)
  qed
  moreover have "Max (set (drop d w @ [0])) = Max (set (drop d w))"
  proof -
    obtain y where y: "y \<in> set (drop d w)" using hd_in_set[OF lne(2)] by blast
    then have "0 \<le> Max (set (drop d w))"
      using pos sub by (metis List.finite_set Max_ge dual_order.trans in_mono zero_le_one)
    moreover have "Max (set (drop d w @ [0])) = max 0 (Max (set (drop d w)))"
      using tne(2) by (simp add: max.commute)
    ultimately show ?thesis by (metis max.absorb2)
  qed
  ultimately have "gd_test w d \<longleftrightarrow> Max (set (drop d w)) < Min (set (take d w))"
    by (simp add: gd_test_def)
  also have "\<dots> \<longleftrightarrow> (\<forall>x \<in> set (take d w). \<forall>y \<in> set (drop d w). y < x)"
    using tne by (simp add: Max_less_iff)
  finally show ?thesis using assms by (simp add: cutp_def)
qed

lemma global_descents_packed:
  assumes "is_packed w"
  shows "global_descents w final_descent
         = filter (cutp w) [1 ..< length w] @ (if final_descent then [length w] else [])"
proof -
  have "filter (gd_test w) [1 ..< length w] = filter (cutp w) [1 ..< length w]"
    using gd_test_cutp[OF assms] by (intro filter_cong) auto
  then show ?thesis by (simp add: global_descents_filter)
qed

subsection \<open>Packed words at a cut point\<close>

lemma set_take_drop: "set w = set (take d w) \<union> set (drop d w)"
  by (metis append_take_drop_id set_append)

lemma pw_max_ge: "x \<in> set w \<Longrightarrow> x \<le> pw_max w"
  by (auto simp: pw_max_def)

lemma pw_max_mem: "w \<noteq> [] \<Longrightarrow> pw_max w \<in> set w"
  by (simp add: pw_max_def)

lemma pw_max_nonneg: "is_packed w \<Longrightarrow> 0 \<le> pw_max w"
  by (cases "w = []") (auto simp: pw_max_def dest: is_packed_nonempty_Max(2))

lemma cutp_drop_packed:
  assumes "is_packed w" and "cutp w d"
  shows "is_packed (drop d w)"
proof -
  have "set (drop d w) = {1 .. pw_max (drop d w)}"
  proof (intro set_eqI iffI)
    fix y assume y: "y \<in> set (drop d w)"
    then have "y \<in> set w" by (rule in_set_dropD)
    then have "1 \<le> y" using assms(1) by (simp add: is_packed_letters)
    then show "y \<in> {1 .. pw_max (drop d w)}" using pw_max_ge[OF y] by simp
  next
    fix z assume z: "z \<in> {1 .. pw_max (drop d w)}"
    then have ne: "drop d w \<noteq> []" by (auto simp: pw_max_def)
    have M: "pw_max (drop d w) \<in> set (drop d w)" using ne by (rule pw_max_mem)
    then have "pw_max (drop d w) \<le> pw_max w" by (meson in_set_dropD pw_max_ge)
    then have "z \<in> set w" using z assms(1) by (simp add: is_packed_letters)
    then have "z \<in> set (take d w) \<or> z \<in> set (drop d w)"
      using set_take_drop[of w d] by auto
    moreover have "z \<notin> set (take d w)"
    proof
      assume "z \<in> set (take d w)"
      then have "pw_max (drop d w) < z" using assms(2) M by (simp add: cutp_def)
      then show False using z by simp
    qed
    ultimately show "z \<in> set (drop d w)" by simp
  qed
  then show ?thesis by (rule is_packed_setI)
qed

lemma cutp_take_set:
  assumes "is_packed w" and "cutp w d"
  shows "set (take d w) = {pw_max (drop d w) + 1 .. pw_max w}"
proof -
  show ?thesis
  proof (intro set_eqI iffI)
    fix x assume x: "x \<in> set (take d w)"
    then have xw: "x \<in> set w" by (rule in_set_takeD)
    have "pw_max (drop d w) < x"
    proof (cases "drop d w = []")
      case True
      have "1 \<le> x" using xw assms(1) by (simp add: is_packed_letters)
      moreover have "pw_max (drop d w) = 0" using True by (simp add: pw_max_def)
      ultimately show ?thesis by simp
    next
      case False
      then show ?thesis using assms(2) x pw_max_mem[OF False] by (simp add: cutp_def)
    qed
    then show "x \<in> {pw_max (drop d w) + 1 .. pw_max w}" using pw_max_ge[OF xw] by simp
  next
    fix x assume x: "x \<in> {pw_max (drop d w) + 1 .. pw_max w}"
    have "0 \<le> pw_max (drop d w)" using cutp_drop_packed[OF assms] by (rule pw_max_nonneg)
    then have "x \<in> set w" using x assms(1) by (simp add: is_packed_letters)
    moreover have "x \<notin> set (drop d w)"
      using x is_packed_letters[OF cutp_drop_packed[OF assms], of x] by simp
    ultimately show "x \<in> set (take d w)" using set_take_drop[of w d] by auto
  qed
qed

lemma cutp_drop:
  assumes "cutp w a" and "cutp w b" and "a \<le> b"
  shows "cutp (drop a w) (b - a)"
proof -
  have "take (b - a) (drop a w) = drop a (take b w)" by (simp add: drop_take)
  then have "set (take (b - a) (drop a w)) \<subseteq> set (take b w)"
    by (metis set_drop_subset)
  moreover have "drop (b - a) (drop a w) = drop b w" using assms(3) by simp
  ultimately show ?thesis using assms(2,3) by (auto simp: cutp_def)
qed

lemma slice_set:
  assumes "is_packed w" and "cutp w a" and "cutp w b" and "a \<le> b"
  shows "set (drop a (take b w)) = {pw_max (drop b w) + 1 .. pw_max (drop a w)}"
proof -
  have "set (take (b - a) (drop a w))
        = {pw_max (drop (b - a) (drop a w)) + 1 .. pw_max (drop a w)}"
    using cutp_drop_packed[OF assms(1,2)] cutp_drop[OF assms(2,3,4)] by (rule cutp_take_set)
  then show ?thesis using assms(4) by (simp add: drop_take)
qed

lemma index_of_upto:
  assumes "a \<le> x" and "x \<le> b"
  shows "int (index_of [a .. b] x) = x - a"
proof -
  have mem: "x \<in> set [a .. b]" using assms by simp
  have lt: "index_of [a .. b] x < length [a .. b]" using mem by (rule index_of_less)
  then have "a + int (index_of [a .. b] x) \<le> b" by simp
  then have "[a .. b] ! index_of [a .. b] x = a + int (index_of [a .. b] x)"
    by (rule nth_upto)
  then show ?thesis using nth_index_of[OF mem] by simp
qed

lemma pack_interval:
  assumes "set xs = {k + 1 .. m}"
  shows "pack xs = map (\<lambda>x. x - k) xs"
proof -
  have "sorted_list_of_set (set xs) = [k + 1 .. m]"
    unfolding assms by (rule sorted_list_of_set_upto)
  moreover have "int (index_of [k + 1 .. m] x) + 1 = x - k" if "x \<in> set xs" for x
    using that assms index_of_upto[of "k + 1" x m] by simp
  ultimately show ?thesis by (simp add: pack_def)
qed

lemma pack_packed: "is_packed w \<Longrightarrow> pack w = w"
  using pack_interval[of w 0 "pw_max w"] by (simp add: is_packed_iff)

subsection \<open>The factors between consecutive cut points\<close>

definition cuts_from :: "int list \<Rightarrow> nat \<Rightarrow> nat list" where
  "cuts_from w i = filter (cutp w) [i + 1 ..< length w] @ [length w]"

definition factors_from :: "int list \<Rightarrow> nat \<Rightarrow> int list list" where
  "factors_from w i = (if i < length w then gdf_loop w i (cuts_from w i) else [])"

lemma factors_from_end [simp]: "factors_from w (length w) = []"
  by (simp add: factors_from_def)

lemma global_descents_factorization_packed:
  assumes "is_packed w" and "w \<noteq> []"
  shows "global_descents_factorization w = factors_from w 0"
proof -
  define g where "g = global_descents w True"
  have g: "g = cuts_from w 0"
    using assms(1) by (simp add: g_def global_descents_packed cuts_from_def)
  then have "g \<noteq> []" by (simp add: cuts_from_def)
  then have "pack (take (hd g) w) # gdf_loop w (hd g) (tl g) = gdf_loop w 0 g"
    by (cases g) simp_all
  then show ?thesis
    using assms(2) \<open>g \<noteq> []\<close> g
    by (simp add: global_descents_factorization_def Let_def g_def[symmetric] factors_from_def)
qed

lemma cuts_from_step:
  assumes "i < length w"
  shows "\<exists>j. i < j \<and> j \<le> length w \<and> cutp w j \<and> (\<forall>d. i < d \<and> d < j \<longrightarrow> \<not> cutp w d)
            \<and> cuts_from w i = j # (if j = length w then [] else cuts_from w j)"
  using assms
proof (induction rule: strict_inc_induct)
  case (base i)
  then have "cuts_from w i = [length w]" by (auto simp: cuts_from_def)
  moreover have "cutp w (length w)" by simp
  ultimately show ?case using base by (intro exI[of _ "length w"]) auto
next
  case (step i)
  have upt: "[i + 1 ..< length w] = Suc i # [Suc i + 1 ..< length w]"
    using step.hyps by (simp add: upt_conv_Cons)
  show ?case
  proof (cases "cutp w (Suc i)")
    case True
    then have "cuts_from w i = Suc i # cuts_from w (Suc i)"
      unfolding cuts_from_def upt by simp
    then show ?thesis using True step.hyps by (intro exI[of _ "Suc i"]) auto
  next
    case False
    then have eq: "cuts_from w i = cuts_from w (Suc i)"
      unfolding cuts_from_def upt by simp
    obtain j where j: "Suc i < j" "j \<le> length w" "cutp w j"
      "\<forall>d. Suc i < d \<and> d < j \<longrightarrow> \<not> cutp w d"
      "cuts_from w (Suc i) = j # (if j = length w then [] else cuts_from w j)"
      using step.IH by blast
    have "\<forall>d. i < d \<and> d < j \<longrightarrow> \<not> cutp w d"
      using j(4) False by (metis Suc_lessI)
    then show ?thesis using j eq by (intro exI[of _ j]) auto
  qed
qed

lemma factors_from_step:
  assumes "i < length w"
  shows "\<exists>j. i < j \<and> j \<le> length w \<and> cutp w j \<and> (\<forall>d. i < d \<and> d < j \<longrightarrow> \<not> cutp w d)
            \<and> factors_from w i = pack (drop i (take j w)) # factors_from w j"
proof -
  obtain j where j: "i < j" "j \<le> length w" "cutp w j" "\<forall>d. i < d \<and> d < j \<longrightarrow> \<not> cutp w d"
    "cuts_from w i = j # (if j = length w then [] else cuts_from w j)"
    using cuts_from_step[OF assms] by blast
  have "factors_from w i = pack (drop i (take j w)) # factors_from w j"
    using assms j(2,5) by (auto simp: factors_from_def)
  then show ?thesis using j by blast
qed

text \<open>An induction over the factors, from a cut point to the end of the word.\<close>

lemma factors_induct [consumes 1, case_names at_end factor]:
  assumes "i \<le> length w"
    and "P (length w)"
    and "\<And>i j. i < j \<Longrightarrow> j \<le> length w \<Longrightarrow> cutp w j
          \<Longrightarrow> \<forall>d. i < d \<and> d < j \<longrightarrow> \<not> cutp w d
          \<Longrightarrow> factors_from w i = pack (drop i (take j w)) # factors_from w j
          \<Longrightarrow> P j \<Longrightarrow> P i"
  shows "P i"
  using assms(1)
proof (induction "length w - i" arbitrary: i rule: less_induct)
  case less
  show ?case
  proof (cases "i = length w")
    case True
    then show ?thesis using assms(2) by simp
  next
    case False
    then have "i < length w" using less.prems by simp
    then obtain j where j: "i < j" "j \<le> length w" "cutp w j"
      "\<forall>d. i < d \<and> d < j \<longrightarrow> \<not> cutp w d"
      "factors_from w i = pack (drop i (take j w)) # factors_from w j"
      using factors_from_step by blast
    have "P j" using less.hyps[of j] j(1,2) by simp
    then show ?thesis using assms(3)[OF j] by simp
  qed
qed

definition irreducible :: "int list \<Rightarrow> bool" where
  "irreducible f \<longleftrightarrow> (\<forall>d. 0 < d \<and> d < length f \<longrightarrow> \<not> cutp f d)"

lemma cutp_map_shift: "cutp (map (\<lambda>x. x - k) xs) d = cutp xs d"
  by (simp add: cutp_def take_map drop_map)

lemma set_shift_interval: "(\<lambda>x. x - k) ` {k + 1 .. m} = {1 .. m - (k :: int)}"
proof (intro set_eqI iffI)
  fix y assume "y \<in> (\<lambda>x. x - k) ` {k + 1 .. m}"
  then show "y \<in> {1 .. m - k}" by auto
next
  fix y assume "y \<in> {1 .. m - k}"
  then have "y = (y + k) - k" "y + k \<in> {k + 1 .. m}" by auto
  then show "y \<in> (\<lambda>x. x - k) ` {k + 1 .. m}" by (rule image_eqI)
qed

lemma factor_props:
  assumes "is_packed w" and "cutp w i" and "cutp w j" and "i < j" and "j \<le> length w"
  defines "s \<equiv> drop i (take j w)"
  shows "pack s = map (\<lambda>x. x - pw_max (drop j w)) s"
    and "length (pack s) = j - i"
    and "pack s \<noteq> []"
    and "is_packed (pack s)"
    and "pw_max (pack s) = pw_max (drop i w) - pw_max (drop j w)"
proof -
  have set_s: "set s = {pw_max (drop j w) + 1 .. pw_max (drop i w)}"
    unfolding s_def using assms(1,2,3) assms(4)[THEN less_imp_le] by (rule slice_set)
  show p: "pack s = map (\<lambda>x. x - pw_max (drop j w)) s"
    using set_s by (rule pack_interval)
  show len: "length (pack s) = j - i"
    using assms(5) by (simp add: s_def)
  show ne: "pack s \<noteq> []"
  proof
    assume "pack s = []"
    then have "length (pack s) = 0" by simp
    then show False using len assms(4) by simp
  qed
  have set_f: "set (pack s) = {1 .. pw_max (drop i w) - pw_max (drop j w)}"
    unfolding p by (simp add: set_s set_shift_interval)
  then show "is_packed (pack s)" by (rule is_packed_setI)
  have "1 \<le> pw_max (drop i w) - pw_max (drop j w)"
    using set_f ne by (metis atLeastatMost_empty_iff2 set_empty)
  then have "Max (set (pack s)) = pw_max (drop i w) - pw_max (drop j w)"
    unfolding set_f by (rule Max_upto_int)
  then show "pw_max (pack s) = pw_max (drop i w) - pw_max (drop j w)"
    using ne by (simp add: pw_max_def)
qed

lemma word_three_parts:
  assumes "i \<le> j" and "j \<le> length w"
  shows "w = take i w @ drop i (take j w) @ drop j w"
proof -
  have "take i (take j w) = take i w" using assms(1) by (simp add: min_absorb1)
  then have "take j w = take i w @ drop i (take j w)"
    by (metis append_take_drop_id)
  then show ?thesis by (metis append.assoc append_take_drop_id)
qed

lemma cutp_slice:
  assumes "cutp w i" and "cutp w j" and "i \<le> j" and "j \<le> length w"
    and "cutp (drop i (take j w)) d" and "d \<le> j - i"
  shows "cutp w (i + d)"
proof -
  define s where "s = drop i (take j w)"
  define a where "a = take i w"
  define c where "c = drop j w"
  have ls: "length s = j - i" using assms(4) by (simp add: s_def)
  have la: "length a = i" using assms(3,4) by (simp add: a_def)
  have w: "w = a @ s @ c"
    unfolding s_def a_def c_def using assms(3,4) by (rule word_three_parts)
  have t: "take (i + d) w = a @ take d s"
    using assms(6) by (simp add: w la ls)
  have dr: "drop (i + d) w = drop d s @ c"
    using assms(6) by (simp add: w la ls)
  have "drop i w = s @ c" by (simp add: w la)
  then have sub1: "set (drop d s) \<union> set c \<subseteq> set (drop i w)"
    by (auto dest: in_set_dropD)
  have sub2: "set (take d s) \<subseteq> set (take j w)"
    by (auto simp: s_def dest: in_set_takeD in_set_dropD)
  have st: "set (take (i + d) w) = set a \<union> set (take d s)"
    and sd: "set (drop (i + d) w) = set (drop d s) \<union> set c"
    by (simp_all add: t dr)
  have "y < x" if x: "x \<in> set (take (i + d) w)" and y: "y \<in> set (drop (i + d) w)" for x y
  proof -
    have xc: "x \<in> set a \<or> x \<in> set (take d s)" using x st by blast
    have yc: "y \<in> set (drop d s) \<or> y \<in> set c" using y sd by blast
    have y1: "y \<in> set (drop i w)" using yc sub1 by blast
    show ?thesis
    proof (cases "x \<in> set a")
      case True
      then show ?thesis using y1 assms(1) by (simp add: cutp_def a_def)
    next
      case False
      then have x2: "x \<in> set (take d s)" using xc by blast
      show ?thesis
      proof (cases "y \<in> set (drop d s)")
        case True
        then show ?thesis using x2 assms(5) by (simp add: cutp_def s_def)
      next
        case False
        then have "y \<in> set (drop j w)" using yc by (simp add: c_def)
        moreover have "x \<in> set (take j w)" using x2 sub2 by blast
        ultimately show ?thesis using assms(2) by (simp add: cutp_def)
      qed
    qed
  qed
  moreover have "i + d \<le> length w" using assms(3,4,6) by simp
  ultimately show ?thesis by (simp add: cutp_def)
qed

lemma factor_irreducible:
  assumes "is_packed w" and "cutp w i" and "cutp w j" and "i < j" and "j \<le> length w"
    and "\<forall>d. i < d \<and> d < j \<longrightarrow> \<not> cutp w d"
  shows "irreducible (pack (drop i (take j w)))"
  unfolding irreducible_def
proof (intro allI impI notI)
  fix d assume d: "0 < d \<and> d < length (pack (drop i (take j w)))"
    and c: "cutp (pack (drop i (take j w))) d"
  have len: "length (pack (drop i (take j w))) = j - i"
    using assms(1-5) by (rule factor_props(2))
  have dl: "0 < d" "d < j - i" using d len by simp_all
  have "cutp (drop i (take j w)) d"
    using c unfolding factor_props(1)[OF assms(1-5)] cutp_map_shift .
  then have "cutp w (i + d)"
    using assms(2,3) assms(4)[THEN less_imp_le] assms(5) dl(2)[THEN less_imp_le]
    by (intro cutp_slice)
  moreover have "i < i + d" "i + d < j" using dl by linarith+
  ultimately show False using assms(6) by blast
qed

lemma factors_from_props:
  assumes "is_packed w" and "i \<le> length w"
  shows "cutp w i \<longrightarrow>
           (\<forall>f \<in> set (factors_from w i). is_packed f \<and> f \<noteq> [] \<and> irreducible f)
         \<and> sum_list (map length (factors_from w i)) = length w - i
         \<and> sum_list (map pw_max (factors_from w i)) = pw_max (drop i w)"
  using assms(2)
proof (induction rule: factors_induct)
  case at_end
  then show ?case by (simp add: pw_max_def)
next
  case (factor i j)
  show ?case
  proof
    assume ci: "cutp w i"
    note fp = factor_props[OF assms(1) ci factor(3,1,2)]
    have irr: "irreducible (pack (drop i (take j w)))"
      using assms(1) ci factor(3,1,2,4) by (rule factor_irreducible)
    have ih: "(\<forall>f \<in> set (factors_from w j). is_packed f \<and> f \<noteq> [] \<and> irreducible f)"
      "sum_list (map length (factors_from w j)) = length w - j"
      "sum_list (map pw_max (factors_from w j)) = pw_max (drop j w)"
      using factor(6,3) by simp_all
    show "(\<forall>f \<in> set (factors_from w i). is_packed f \<and> f \<noteq> [] \<and> irreducible f)
         \<and> sum_list (map length (factors_from w i)) = length w - i
         \<and> sum_list (map pw_max (factors_from w i)) = pw_max (drop i w)"
      unfolding factor(5) using fp irr ih factor(1,2) by simp
  qed
qed

subsection \<open>The shifted concatenation of the factors\<close>

lemma take_as_slice:
  assumes "i \<le> j"
  shows "take j w = take i w @ drop i (take j w)"
proof -
  have "take i (take j w) = take i w" using assms by (simp add: min_absorb1)
  then show ?thesis by (metis append_take_drop_id)
qed

lemma shifted_prefix_packed:
  assumes "is_packed w" and "cutp w j"
  shows "is_packed (map (\<lambda>x. x - pw_max (drop j w)) (take j w))"
proof -
  have "set (map (\<lambda>x. x - pw_max (drop j w)) (take j w))
        = {1 .. pw_max w - pw_max (drop j w)}"
    by (simp add: cutp_take_set[OF assms] set_shift_interval)
  then show ?thesis by (rule is_packed_setI)
qed

lemma l_shifted_concat_factor:
  assumes "is_packed w" and "cutp w i" and "cutp w j" and "i < j" and "j \<le> length w"
  shows "l_shifted_concat (map (\<lambda>x. x - pw_max (drop i w)) (take i w))
           (pack (drop i (take j w)))
         = Inr (map (\<lambda>x. x - pw_max (drop j w)) (take j w))"
proof -
  define s where "s = drop i (take j w)"
  note fp = factor_props[OF assms, folded s_def]
  have mx: "Max (set (pack s)) = pw_max (drop i w) - pw_max (drop j w)"
    using fp(3,5) by (simp add: pw_max_def)
  have "map (\<lambda>x. x + Max (set (pack s))) (map (\<lambda>x. x - pw_max (drop i w)) (take i w)) @ pack s
        = map (\<lambda>x. x - pw_max (drop j w)) (take i w) @ map (\<lambda>x. x - pw_max (drop j w)) s"
    by (subst mx, subst fp(1)) simp
  also have "\<dots> = map (\<lambda>x. x - pw_max (drop j w)) (take i w @ s)"
    by simp
  also have "take i w @ s = take j w"
    unfolding s_def by (rule take_as_slice[OF assms(4)[THEN less_imp_le], symmetric])
  finally show ?thesis
    using fp(3) shifted_prefix_packed[OF assms(1,3)]
    by (simp add: l_shifted_concat_def PackedWord_iff s_def)
qed

lemma shifted_concat_factors_from:
  assumes "is_packed w" and "i \<le> length w"
  shows "cutp w i \<longrightarrow>
         shifted_concat_loop (map (\<lambda>x. x - pw_max (drop i w)) (take i w)) (factors_from w i)
         = Inr w"
  using assms(2)
proof (induction rule: factors_induct)
  case at_end
  then show ?case by (simp add: pw_max_def)
next
  case (factor i j)
  show ?case
  proof
    assume ci: "cutp w i"
    have "l_shifted_concat (map (\<lambda>x. x - pw_max (drop i w)) (take i w))
           (pack (drop i (take j w)))
         = Inr (map (\<lambda>x. x - pw_max (drop j w)) (take j w))"
      using assms(1) ci factor(3,1,2) by (rule l_shifted_concat_factor)
    then show "shifted_concat_loop (map (\<lambda>x. x - pw_max (drop i w)) (take i w))
                 (factors_from w i) = Inr w"
      unfolding factor(5) using factor(6,3) by simp
  qed
qed

lemma shifted_concat_factorization:
  assumes "is_packed w" and "w \<noteq> []"
  shows "shifted_concat_loop [] (global_descents_factorization w) = Inr w"
  using shifted_concat_factors_from[OF assms(1), of 0]
  by (simp add: global_descents_factorization_packed[OF assms])

lemma factorization_props:
  assumes "is_packed w" and "w \<noteq> []"
  shows "\<forall>f \<in> set (global_descents_factorization w). is_packed f \<and> f \<noteq> [] \<and> irreducible f"
    and "sum_list (map length (global_descents_factorization w)) = length w"
    and "sum_list (map pw_max (global_descents_factorization w)) = pw_max w"
    and "global_descents_factorization w \<noteq> []"
proof -
  have "factors_from w 0 \<noteq> []"
    using factors_from_step[of 0 w] assms(2) by auto
  then show "global_descents_factorization w \<noteq> []"
    by (simp add: global_descents_factorization_packed[OF assms])
  show "\<forall>f \<in> set (global_descents_factorization w). is_packed f \<and> f \<noteq> [] \<and> irreducible f"
    "sum_list (map length (global_descents_factorization w)) = length w"
    "sum_list (map pw_max (global_descents_factorization w)) = pw_max w"
    using factors_from_props[OF assms(1), of 0]
    by (simp_all add: global_descents_factorization_packed[OF assms])
qed

section \<open>The plain codec\<close>

subsection \<open>Pieces of the encoder and the decoder\<close>

lemma sequence_err_map:
  assumes "\<forall>x \<in> set xs. \<exists>y. f x = Inr y"
  shows "sequence_err (map f xs) = Inr (map (\<lambda>x. projr (f x)) xs)"
  using assms by (induction xs) auto

lemma find_cut_sum:
  assumes "ct < length fs" and "s = sum_list (map length (take (Suc ct) fs))"
    and "len_m = sum_list (map length fs)"
  shows "\<exists>c. c < length fs
           \<and> find_cut fs p0 len_m ct s = Inr (c, sum_list (map length (take (Suc c) fs)))"
  using assms
proof (induction fs p0 len_m ct s rule: find_cut.induct)
  case (1 g p0 len_m ct s)
  show ?case
  proof (cases "s \<le> p0 \<and> s < len_m")
    case False
    then have "find_cut g p0 len_m ct s = Inr (ct, s)" by (simp add: find_cut.simps)
    then show ?thesis using "1.prems" by blast
  next
    case True
    have lt: "ct + 1 < length g"
    proof (rule ccontr)
      assume "\<not> ct + 1 < length g"
      then have "take (Suc ct) g = g" by simp
      then show False using True "1.prems" by simp
    qed
    have "take (Suc (ct + 1)) g = take (Suc ct) g @ [g ! (ct + 1)]"
      using lt by (simp add: take_Suc_conv_app_nth)
    then have "s + length (g ! (ct + 1)) = sum_list (map length (take (Suc (ct + 1)) g))"
      using "1.prems"(2) by simp
    from "1.IH"[OF True lt lt this "1.prems"(3)] obtain c where
      "c < length g" "find_cut g p0 len_m (ct + 1) (s + length (g ! (ct + 1)))
         = Inr (c, sum_list (map length (take (Suc c) g)))"
      by blast
    then show ?thesis using True lt by (subst find_cut.simps) auto
  qed
qed

lemma positions_Cons:
  "filter (\<lambda>i. (x # w) ! i = m) [0 ..< Suc (length w)]
   = (if x = m then [0] else []) @ map Suc (filter (\<lambda>i. w ! i = m) [0 ..< length w])"
proof -
  have "[0 ..< Suc (length w)] = 0 # map Suc [0 ..< length w]"
    by (simp add: upt_conv_Cons map_Suc_upt del: upt_Suc)
  then show ?thesis by (simp add: filter_map o_def del: upt_Suc)
qed

lemma insert_at_Cons:
  "0 \<le> p \<Longrightarrow> insert_at m (x # u) (p + 1) = x # insert_at m u p"
  by (simp add: insert_at_def py_take_def py_drop_def nat_add_distrib)

lemma foldl_insert_at_Cons:
  "foldl (insert_at m) (x # u) (map (\<lambda>i. int (Suc i)) ps)
   = x # foldl (insert_at m) u (map int ps)"
proof (induction ps arbitrary: u)
  case Nil
  then show ?case by simp
next
  case (Cons p ps)
  have "insert_at m (x # u) (int (Suc p)) = x # insert_at m u (int p)"
    using insert_at_Cons[of "int p" m x u] by (simp add: add.commute)
  then show ?case using Cons.IH by simp
qed

lemma reinsert_letter:
  "foldl (insert_at m) (filter (\<lambda>x. x \<noteq> m) w)
     (map int (filter (\<lambda>i. w ! i = m) [0 ..< length w])) = w"
proof (induction w)
  case Nil
  then show ?case by simp
next
  case (Cons x w)
  have pos: "map int (filter (\<lambda>i. (x # w) ! i = m) [0 ..< length (x # w)])
        = (if x = m then [0] else [])
          @ map (\<lambda>i. int (Suc i)) (filter (\<lambda>i. w ! i = m) [0 ..< length w])"
    using positions_Cons[of x w m] by (simp add: o_def del: upt_Suc of_nat_Suc)
  show ?case
  proof (cases "x = m")
    case True
    have "insert_at m (filter (\<lambda>x. x \<noteq> m) w) 0 = m # filter (\<lambda>x. x \<noteq> m) w"
      by (simp add: insert_at_def py_take_def py_drop_def)
    then show ?thesis
      unfolding pos using True Cons.IH by (simp add: foldl_insert_at_Cons del: of_nat_Suc)
  next
    case False
    then show ?thesis
      unfolding pos using Cons.IH by (simp add: foldl_insert_at_Cons del: of_nat_Suc)
  qed
qed

lemma upto_as_map: "[1 .. int k] = map (\<lambda>i. int i + 1) [0 ..< k]"
proof (rule nth_equalityI)
  show "length [1 .. int k] = length (map (\<lambda>i. int i + 1) [0 ..< k])" by simp
next
  fix i assume "i < length [1 .. int k]"
  then have i: "i < k" by simp
  then have "[1 .. int k] ! i = 1 + int i" by (intro nth_upto) simp
  then show "[1 .. int k] ! i = map (\<lambda>i. int i + 1) [0 ..< k] ! i" using i by simp
qed

lemma length_positions:
  "length (filter (\<lambda>i. w ! i = m) [0 ..< length w]) = length (filter (\<lambda>x. x = m) w)"
proof (induction w)
  case Nil
  then show ?case by simp
next
  case (Cons x w)
  then show ?case using positions_Cons[of x w m] by (simp del: upt_Suc)
qed

lemma below_max:
  assumes "is_packed w" and "w \<noteq> []" and "1 < Max (set w)"
  defines "self_m \<equiv> filter (\<lambda>x. x < Max (set w)) w"
  shows "is_packed self_m" and "self_m \<noteq> []" and "Max (set self_m) = Max (set w) - 1"
    and "self_m = filter (\<lambda>x. x \<noteq> Max (set w)) w"
    and "length self_m + length (filter (\<lambda>i. w ! i = Max (set w)) [0 ..< length w]) = length w"
proof -
  have sw: "set w = {1 .. Max (set w)}" using assms(1,2) by (rule is_packed_nonempty_Max(1))
  have "set self_m = {x \<in> {1 .. Max (set w)}. x < Max (set w)}"
    unfolding self_m_def using sw by auto
  also have "\<dots> = {1 .. Max (set w) - 1}" by auto
  finally have ss: "set self_m = {1 .. Max (set w) - 1}" .
  then show "is_packed self_m" by (rule is_packed_setI)
  show ne: "self_m \<noteq> []" using ss assms(3) by auto
  show "Max (set self_m) = Max (set w) - 1"
    unfolding ss using assms(3) by (intro Max_upto_int) simp
  show eq: "self_m = filter (\<lambda>x. x \<noteq> Max (set w)) w"
    unfolding self_m_def by (intro filter_cong) (auto simp: order_less_le)
  have "length (filter (\<lambda>i. w ! i = Max (set w)) [0 ..< length w])
        = length (filter (\<lambda>x. x = Max (set w)) w)"
    by (rule length_positions)
  then show "length self_m + length (filter (\<lambda>i. w ! i = Max (set w)) [0 ..< length w]) = length w"
    unfolding eq using sum_length_filter_compl[of "\<lambda>x. x = Max (set w)" w] by simp
qed

lemma sorted_positions: "sort (map int (filter P [0 ..< n])) = map int (filter P [0 ..< n])"
proof -
  have "sorted (filter P [0 ..< n])" by (rule sorted_wrt_filter) simp
  then have "sorted (map int (filter P [0 ..< n]))" by (simp add: sorted_wrt_map)
  then show ?thesis by (rule sorted_sort_id)
qed

lemma upgrade_max_reinsert:
  assumes "is_packed w" and "w \<noteq> []" and "1 < Max (set w)"
  shows "upgrade_max (filter (\<lambda>x. x < Max (set w)) w)
           (map int (filter (\<lambda>i. w ! i = Max (set w)) [0 ..< length w])) = Inr w"
proof -
  define m where "m = Max (set w)"
  define self_m where "self_m = filter (\<lambda>x. x < m) w"
  define pos where "pos = filter (\<lambda>i. w ! i = m) [0 ..< length w]"
  note bm = below_max[OF assms, folded m_def, folded self_m_def, folded pos_def]
  have "m \<in> set w" using assms(2) by (simp add: m_def)
  then obtain i where "i < length w" "w ! i = m" by (auto simp: in_set_conv_nth)
  then have "i \<in> set pos" by (simp add: pos_def)
  then have pne: "pos \<noteq> []" by auto
  have sorted: "sort (map int pos) = map int pos"
    unfolding pos_def by (rule sorted_positions)
  have "last pos \<in> set pos" using pne by simp
  then have "last pos < length w" by (simp add: pos_def)
  then have bound: "\<not> last (map int pos) > int (length self_m) + int (length (map int pos)) - 1"
    using bm(5) pne by (simp add: last_map)
  have "foldl (insert_at (Max (set self_m) + 1)) self_m (map int pos) = w"
    unfolding bm(3) using reinsert_letter[of m w] by (simp add: bm(4) pos_def)
  then show ?thesis
    using pne bm(2) sorted bound assms(1)
    by (simp add: upgrade_max_def PackedWord_iff m_def[symmetric] self_m_def[symmetric]
        pos_def[symmetric])
qed

lemma sequence_err_id:
  assumes "\<forall>x \<in> set xs. g x = Inr x"
  shows "sequence_err (map g xs) = Inr xs"
  using assms by (induction xs) auto

lemma single_factor:
  assumes "is_packed w" and "w \<noteq> []" and "global_descents_factorization w = [f]"
  shows "f = w"
proof -
  have "shifted_concat_loop [] [f] = Inr w"
    using shifted_concat_factorization[OF assms(1,2)] assms(3) by simp
  then show ?thesis
    by (auto simp: l_shifted_concat_def PackedWord_iff split: sum.splits)
qed

lemma plain_forest_decode:
  assumes "is_packed w" and "w \<noteq> []"
    and "\<forall>f \<in> set (global_descents_factorization w). labelled_tree_to_packed_word (T f) = Inr f"
  shows "labelled_forest_to_packed_word (map T (global_descents_factorization w)) = Inr w"
proof -
  define fs where "fs = global_descents_factorization w"
  have sc: "shifted_concat_loop [] fs = Inr w"
    unfolding fs_def using assms(1,2) by (rule shifted_concat_factorization)
  have dec: "sequence_err (map labelled_tree_to_packed_word (map T fs)) = Inr fs"
    using sequence_err_id[of fs "\<lambda>f. labelled_tree_to_packed_word (T f)"] assms(3)
    by (simp add: fs_def o_def)
  have ne: "fs \<noteq> []" unfolding fs_def using assms(1,2) by (rule factorization_props(4))
  have "labelled_forest_to_packed_word (map T fs) = Inr w"
  proof (cases fs)
    case Nil
    then show ?thesis using ne by simp
  next
    case (Cons f rest)
    show ?thesis
    proof (cases rest)
      case Nil
      then have "f = w" using Cons assms(1,2) single_factor by (simp add: fs_def)
      then show ?thesis using Cons Nil assms(3) by (simp add: fs_def)
    next
      case (Cons f' rest')
      then have "map T fs = T f # T f' # map T rest'" using \<open>fs = f # rest\<close> by simp
      then show ?thesis
        using dec sc assms(1) by (simp add: PackedWord_iff)
    qed
  qed
  then show ?thesis by (simp add: fs_def)
qed

lemma tail_positions:
  assumes "pos = filter P [0 ..< n]" and "pos \<noteq> []" and "a \<le> hd pos" and "a + length pos = n"
  shows "pos = [a ..< n]"
proof -
  have sorted: "sorted pos" unfolding assms(1) by (rule sorted_wrt_filter) simp
  have distinct: "distinct pos" unfolding assms(1) by simp
  have "set pos \<subseteq> {a ..< n}"
  proof
    fix x assume x: "x \<in> set pos"
    then have "x < n" by (simp add: assms(1))
    moreover have "hd pos \<le> x"
      using sorted x assms(2) by (cases pos) auto
    ultimately show "x \<in> {a ..< n}" using assms(3) by simp
  qed
  moreover have "card (set pos) = card {a ..< n}"
    using distinct_card[OF distinct] assms(4) by simp
  ultimately have "set pos = {a ..< n}" by (intro card_subset_eq) simp_all
  then show ?thesis
    using sorted distinct by (intro sorted_distinct_set_unique) simp_all
qed

lemma shifted_labels:
  "map (\<lambda>x. x + int a - 1) [1 .. int k] = map int [a ..< a + k]"
proof -
  have "map (\<lambda>x. x + int a - 1) [1 .. int k] = map (\<lambda>i. int (i + a)) [0 ..< k]"
    by (simp add: upto_as_map o_def)
  also have "\<dots> = map int (map (\<lambda>i. i + a) [0 ..< k])" by (simp add: o_def)
  also have "map (\<lambda>i. i + a) [0 ..< k] = [a ..< a + k]"
    by (simp add: map_add_upt add.commute)
  finally show ?thesis .
qed

lemma plain_leaf:
  assumes "is_packed w" and "w \<noteq> []" and "Max (set w) = 1"
  shows "packed_word_to_labelled_tree w = Inr (LabelledOrderedTree [] (0, [1 .. int (length w)]))"
    and "labelled_tree_to_packed_word (LabelledOrderedTree [] (0, [1 .. int (length w)])) = Inr w"
proof -
  show "packed_word_to_labelled_tree w = Inr (LabelledOrderedTree [] (0, [1 .. int (length w)]))"
    using assms(2,3) by (subst packed_word_to_labelled_tree.simps) simp
  have "set w = {1 .. 1}" using is_packed_nonempty_Max(1)[OF assms(1,2)] assms(3) by simp
  then have "\<forall>y \<in> set w. y = 1" by simp
  then have w: "replicate (length w) 1 = w" by (rule replicate_length_same)
  have l: "map (\<lambda>x. x + int 0 - 1) [1 .. int (length w)] = map int [0 ..< length w]"
    using shifted_labels[of 0 "length w"] by simp
  have "foldl (insert_at 1) [] (map int [0 ..< length w]) = replicate (length w) 1"
    using foldl_insert_at_replicate[of 1 0 "map int [0 ..< length w]"] by simp
  then have "upgrade_max [] (map int [0 ..< length w]) = Inr w"
    using assms(1,2) w by (simp add: upgrade_max_def PackedWord_iff)
  moreover have "PackedWord [] = Inr []"
    using is_packed_replicate_1[of 0] by (simp add: PackedWord_iff)
  ultimately show "labelled_tree_to_packed_word (LabelledOrderedTree [] (0, [1 .. int (length w)])) = Inr w"
    using l by (simp add: weight_l_def)
qed

subsection \<open>The round trip of a tree\<close>

lemma plain_tree_round_trip:
  assumes "is_packed w" and "w \<noteq> []"
  shows "\<exists>t. packed_word_to_labelled_tree w = Inr t \<and> weight t = length w
             \<and> labelled_tree_to_packed_word t = Inr w"
  using assms
proof (induction "length w" arbitrary: w rule: less_induct)
  case less
  note packed = less.prems(1) and ne = less.prems(2)
  show ?case
  proof (cases "Max (set w) = 1")
    case True
    from plain_leaf[OF packed ne True] show ?thesis by auto
  next
    case False
    then have m1: "1 < Max (set w)"
      using is_packed_nonempty_Max(2)[OF packed ne] by simp
    define m where "m = Max (set w)"
    define pos where "pos = filter (\<lambda>i. w ! i = m) [0 ..< length w]"
    define self_m where "self_m = filter (\<lambda>x. x < m) w"
    define fs where "fs = global_descents_factorization self_m"
    define T where "T = (\<lambda>f. projr (packed_word_to_labelled_tree f))"
    define ts where "ts = map T fs"
    note bm = below_max[OF packed ne m1, folded m_def, folded self_m_def, folded pos_def]
    note fp = factorization_props[OF bm(1,2), folded fs_def]
    have um: "upgrade_max self_m (map int pos) = Inr w"
      using upgrade_max_reinsert[OF packed ne m1] by (simp add: m_def self_m_def pos_def)
    have pack_m: "PackedWord self_m = Inr self_m" using bm(1) by (simp add: PackedWord_iff)
    have shorter: "length f < length w" if "f \<in> set fs" for f
    proof -
      have "length f \<le> sum_list (map length fs)"
        using that member_le_sum_list[of "length f" "map length fs"] by simp
      moreover have "pos \<noteq> []" using um by (auto simp: upgrade_max_def)
      ultimately show ?thesis using fp(2) bm(5) by (cases pos) simp_all
    qed
    have ih: "packed_word_to_labelled_tree f = Inr (T f) \<and> weight (T f) = length f
              \<and> labelled_tree_to_packed_word (T f) = Inr f" if "f \<in> set fs" for f
    proof -
      have pf: "is_packed f" "f \<noteq> []" using fp(1) that by blast+
      from less.hyps[OF shorter[OF that] pf] obtain t where
        t: "packed_word_to_labelled_tree f = Inr t" "weight t = length f"
           "labelled_tree_to_packed_word t = Inr f"
        by blast
      have "T f = t" by (simp add: T_def t(1))
      with t show ?thesis by simp
    qed
    have ex: "\<forall>f \<in> set fs. \<exists>y. packed_word_to_labelled_tree f = Inr y"
      using ih by blast
    have seq: "sequence_err (map packed_word_to_labelled_tree fs) = Inr ts"
      unfolding ts_def T_def by (rule sequence_err_map[OF ex])
    have wts: "map weight ts = map length fs"
      using ih by (simp add: ts_def)
    have wtake: "sum_list (map weight (take c ts)) = sum_list (map length (take c fs))" for c
      using wts by (metis take_map)
    have wall: "sum_list (map weight ts) = length self_m"
      using wts fp(2) by simp
    have dec: "labelled_forest_to_packed_word ts = Inr self_m"
      unfolding ts_def fs_def using bm(1,2) ih by (intro plain_forest_decode) (simp_all add: fs_def)
    have pne: "pos \<noteq> []" using um by (auto simp: upgrade_max_def)
    show ?thesis
    proof (cases "length self_m \<le> hd pos")
      case True
      define t where "t = LabelledOrderedTree ts (length ts, [1 .. int (length pos)])"
      have forest: "packed_word_to_labelled_forest self_m = Inr ts"
        using bm(2) seq by (subst packed_word_to_labelled_forest.simps) (simp add: fs_def)
      have enc: "packed_word_to_labelled_tree w = Inr t"
        using ne False True pack_m forest
        by (subst packed_word_to_labelled_tree.simps)
           (simp add: Let_def m_def[symmetric] pos_def[symmetric] self_m_def[symmetric] t_def)
      have wt: "weight t = length w"
        using wall bm(5) by (simp add: t_def)
      have "pos = [length self_m ..< length w]"
        using pos_def pne True bm(5) by (rule tail_positions)
      then have "map (\<lambda>x. x + int (length self_m) - 1) [1 .. int (length pos)] = map int pos"
        using shifted_labels[of "length self_m" "length pos"] bm(5) by simp
      then have "labelled_tree_to_packed_word t = Inr w"
        using dec um wall by (simp add: t_def weight_l_def)
      then show ?thesis using enc wt by blast
    next
      case False
      have "0 < length fs" using fp(4) by simp
      moreover have "length (hd fs) = sum_list (map length (take (Suc 0) fs))"
        using fp(4) by (cases fs) simp_all
      ultimately obtain c where c: "c < length fs"
        "find_cut fs (hd pos) (length self_m) 0 (length (hd fs))
         = Inr (c, sum_list (map length (take (Suc c) fs)))"
        using find_cut_sum[of 0 fs "length (hd fs)" "length self_m" "hd pos"] fp(2) by auto
      define s0 where "s0 = sum_list (map length (take c fs))"
      have s1: "int (sum_list (map length (take (Suc c) fs))) - int (length (fs ! c)) = int s0"
        using c(1) by (simp add: take_Suc_conv_app_nth s0_def)
      define t where "t = LabelledOrderedTree ts (c, map (\<lambda>x. int x - int s0 + 1) pos)"
      have enc: "packed_word_to_labelled_tree w = Inr t"
        using ne \<open>Max (set w) \<noteq> 1\<close> False pack_m c(2) seq s1
        by (subst packed_word_to_labelled_tree.simps)
           (simp add: Let_def m_def[symmetric] pos_def[symmetric] self_m_def[symmetric]
              fs_def[symmetric] t_def)
      have wt: "weight t = length w"
        using wall bm(5) by (simp add: t_def)
      have wl: "weight_l t = s0"
        using wtake[of c] by (simp add: t_def weight_l_def s0_def)
      have undo: "map (\<lambda>x. x + int s0 - 1) (map (\<lambda>x. int x - int s0 + 1) pos) = map int pos"
        by simp
      have "labelled_tree_to_packed_word t
              = upgrade_max self_m (map (\<lambda>x. x + int (weight_l t) - 1)
                  (map (\<lambda>x. int x - int s0 + 1) pos))"
        unfolding t_def labelled_tree_to_packed_word.simps dec by simp
      then have "labelled_tree_to_packed_word t = Inr w"
        unfolding wl undo um .
      then show ?thesis using enc wt by blast
    qed
  qed
qed

subsection \<open>The round trip of the plain codec\<close>

text \<open>
  C1.  For every packed word \<open>w\<close>, the empty word included,
  \<open>packed_word_to_labelled_forest\<close> returns a forest and
  \<open>labelled_forest_to_packed_word\<close> returns \<open>w\<close> on that forest.  The word
  \<open>[1, 5, 10, 2, 3, 11, 4, 7, 6, 7, 2, 9, 8]\<close> is packed, so it is an instance.
\<close>

theorem plain_codec_round_trip:
  assumes "is_packed w"
  shows "\<exists>ts. packed_word_to_labelled_forest w = Inr ts
              \<and> labelled_forest_to_packed_word ts = Inr w"
proof (cases "w = []")
  case True
  have "packed_word_to_labelled_forest w = Inr []"
    using True by (subst packed_word_to_labelled_forest.simps) simp
  moreover have "labelled_forest_to_packed_word [] = Inr w"
    using True assms by (simp add: PackedWord_iff)
  ultimately show ?thesis by blast
next
  case False
  define fs where "fs = global_descents_factorization w"
  define T where "T = (\<lambda>f. projr (packed_word_to_labelled_tree f))"
  note fp = factorization_props(1)[OF assms False, folded fs_def]
  have rt: "packed_word_to_labelled_tree f = Inr (T f)
            \<and> labelled_tree_to_packed_word (T f) = Inr f" if "f \<in> set fs" for f
  proof -
    have pf: "is_packed f" "f \<noteq> []" using fp that by blast+
    from plain_tree_round_trip[OF pf] obtain t where
      t: "packed_word_to_labelled_tree f = Inr t" "labelled_tree_to_packed_word t = Inr f"
      by blast
    have "T f = t" by (simp add: T_def t(1))
    with t show ?thesis by simp
  qed
  have ex: "\<forall>f \<in> set fs. \<exists>y. packed_word_to_labelled_tree f = Inr y"
    using rt by blast
  have "sequence_err (map packed_word_to_labelled_tree fs) = Inr (map T fs)"
    unfolding T_def by (rule sequence_err_map[OF ex])
  then have enc: "packed_word_to_labelled_forest w = Inr (map T fs)"
    using False by (subst packed_word_to_labelled_forest.simps) (simp add: fs_def)
  have "\<forall>f \<in> set (global_descents_factorization w). labelled_tree_to_packed_word (T f) = Inr f"
    using rt by (simp add: fs_def)
  then have "labelled_forest_to_packed_word (map T fs) = Inr w"
    unfolding fs_def using assms False by (intro plain_forest_decode)
  with enc show ?thesis by blast
qed

theorem plain_codec_round_trip_witness:
  "is_packed [1, 5, 10, 2, 3, 11, 4, 7, 6, 7, 2, 9, 8]
   \<and> (\<exists>ts. packed_word_to_labelled_forest [1, 5, 10, 2, 3, 11, 4, 7, 6, 7, 2, 9, 8] = Inr ts
          \<and> labelled_forest_to_packed_word ts = Inr [1, 5, 10, 2, 3, 11, 4, 7, 6, 7, 2, 9, 8])
   \<and> is_packed []
   \<and> (\<exists>ts. packed_word_to_labelled_forest [] = Inr ts
          \<and> labelled_forest_to_packed_word ts = Inr [])"
proof -
  have p: "is_packed [1, 5, 10, 2, 3, 11, 4, 7, 6, 7, 2, 9, 8]" "is_packed []"
    by code_simp+
  from plain_codec_round_trip[OF p(1)] plain_codec_round_trip[OF p(2)] p
  show ?thesis by (intro conjI)
qed

end
